theory Spec2Isabelle
  imports Main "HOL-Library.AList" "HOL-Library.Multiset" "HOL-Library.Char_ord"
    "HOL-Library.List_Lexorder"
begin

section \<open>The git reference-advertisement rewriter of cmd/gvisor-website/main.go\<close>

text \<open>
  The handler \<open>infoRefs\<close> of \<^verbatim>\<open>main.go\<close> (lines 250-448) fetches the upstream
  reference advertisement, decodes its pkt-line records, makes \<open>refs/heads/go\<close> the
  advertised default branch and writes the advertisement out again.

  Go strings and byte slices are byte sequences: \<open>string\<close> (a list of 8-bit \<open>char\<close>)
  models both, and \<open>length\<close> is Go's \<open>len\<close>. The closures \<open>emitPkt\<close>, \<open>readPkt\<close> and
  \<open>readRef\<close> capture and mutate the buffer \<open>data\<close> and the response writer \<open>w\<close>; the
  model passes both explicitly and returns them updated. A Go panic is a value of the
  type \<open>panic\<close>.
\<close>

subsection \<open>Bytes used by the protocol\<close>

abbreviation NL :: char where "NL \<equiv> CHR 0x0A"
abbreviation NUL :: char where "NUL \<equiv> CHR 0x00"
abbreviation SP :: char where "SP \<equiv> CHR '' ''"

subsection \<open>Library functions of Go used by the handler\<close>

text \<open>
  \<open>fmt\<close>'s verb \<^verbatim>\<open>%04x\<close> on a non-negative integer: the lowercase hexadecimal digits,
  padded on the left with zeros to a width of at least four. A number of more than
  four digits is printed in full. (\<open>hexdigit\<close> is only applied to numbers below 16.)
\<close>

definition hexdigit :: "nat \<Rightarrow> char" where
  "hexdigit d = ''0123456789abcdef'' ! d"

fun hex_of :: "nat \<Rightarrow> string" where
  "hex_of n = (if n < 16 then [hexdigit n] else hex_of (n div 16) @ [hexdigit (n mod 16)])"

definition fmt04x :: "nat \<Rightarrow> string" where
  "fmt04x n = replicate (4 - length (hex_of n)) (CHR ''0'') @ hex_of n"

text \<open>
  \<open>strconv.ParseUint(s, 16, 32)\<close>: the empty string is a syntax error; each byte
  must be a digit \<open>0-9\<close> or a letter whose lower-case form \<open>c | 0x20\<close> is in \<open>a-z\<close>,
  with a value below the base. A value that does not fit 32 bits is a range error.
  \<open>None\<close> stands for a non-nil \<open>err\<close>.
\<close>

definition lower :: "nat \<Rightarrow> nat" where
  "lower c = (if (c div 32) mod 2 = 0 then c + 32 else c)"

definition digit16 :: "char \<Rightarrow> nat option" where
  "digit16 ch =
     (let c = (of_char ch :: nat);
          d = (if 48 \<le> c \<and> c \<le> 57 then Some (c - 48)
               else if 97 \<le> lower c \<and> lower c \<le> 122 then Some (lower c - 97 + 10)
               else None)
      in case d of None \<Rightarrow> None | Some v \<Rightarrow> if v \<ge> 16 then None else Some v)"

fun digits16 :: "nat \<Rightarrow> string \<Rightarrow> nat option" where
  "digits16 n [] = Some n"
| "digits16 n (c # cs) =
     (case digit16 c of None \<Rightarrow> None | Some d \<Rightarrow> digits16 (n * 16 + d) cs)"

definition ParseUint :: "string \<Rightarrow> nat option" where
  "ParseUint s =
     (if s = [] then None
      else case digits16 0 s of
             None \<Rightarrow> None
           | Some n \<Rightarrow> if n \<ge> 2 ^ 32 then None else Some n)"

text \<open>
  \<open>strconv.ParseInt(s, 16, 32)\<close>: an optional sign \<open>+\<close> or \<open>-\<close>, then \<open>ParseUint\<close>; the
  result must lie in the range of a signed 32-bit integer.
\<close>

definition ParseInt :: "string \<Rightarrow> int option" where
  "ParseInt s =
     (case s of
        [] \<Rightarrow> None
      | c # cs \<Rightarrow>
          if c = CHR ''+'' then
            (case ParseUint cs of None \<Rightarrow> None
             | Some un \<Rightarrow> if un \<ge> 2 ^ 31 then None else Some (int un))
          else if c = CHR ''-'' then
            (case ParseUint cs of None \<Rightarrow> None
             | Some un \<Rightarrow> if un > 2 ^ 31 then None else Some (- int un))
          else
            (case ParseUint s of None \<Rightarrow> None
             | Some un \<Rightarrow> if un \<ge> 2 ^ 31 then None else Some (int un)))"

text \<open>\<open>strings.HasPrefix\<close>, \<open>strings.HasSuffix\<close> and \<open>strings.TrimSuffix\<close>.\<close>

definition HasPrefix :: "string \<Rightarrow> string \<Rightarrow> bool" where
  "HasPrefix s pre = (length s \<ge> length pre \<and> take (length pre) s = pre)"

definition HasSuffix :: "string \<Rightarrow> string \<Rightarrow> bool" where
  "HasSuffix s suf = (length s \<ge> length suf \<and> drop (length s - length suf) s = suf)"

definition TrimSuffix :: "string \<Rightarrow> string \<Rightarrow> string" where
  "TrimSuffix s suf = (if HasSuffix s suf then take (length s - length suf) s else s)"

text \<open>
  \<open>strings.Split(s, sep)\<close> for a separator of one byte: the pieces of \<open>s\<close> between
  the occurrences of the separator; always at least one piece.
\<close>

fun Split :: "string \<Rightarrow> char \<Rightarrow> string list" where
  "Split [] sep = [[]]"
| "Split (c # cs) sep =
     (if c = sep then [] # Split cs sep
      else (case Split cs sep of [] \<Rightarrow> [[c]] | p # ps \<Rightarrow> (c # p) # ps))"

text \<open>\<open>strings.Join(elems, sep)\<close>.\<close>

fun Join :: "string list \<Rightarrow> string \<Rightarrow> string" where
  "Join [] sep = []"
| "Join [e] sep = e"
| "Join (e # es) sep = e @ sep @ Join es sep"

subsection \<open>The response writer\<close>

text \<open>
  \<open>http.ResponseWriter\<close>: \<open>WriteHeader\<close> fixes the status code once; a \<open>Write\<close>
  before any \<open>WriteHeader\<close> sends status 200 first. \<open>status = None\<close> means that no
  header has been sent yet. \<open>body\<close> collects the bytes that the handler gives to
  \<open>Write\<close>, in their order; \<open>headers\<close> is the header map, with the keys in the order
  in which they were set.
\<close>

record response =
  status :: "nat option"
  headers :: "(string \<times> string) list"
  body :: string

definition w0 :: response where
  "w0 = \<lparr>status = None, headers = [], body = []\<rparr>"

definition WriteHeader :: "nat \<Rightarrow> response \<Rightarrow> response" where
  "WriteHeader code w = (case status w of None \<Rightarrow> w\<lparr>status := Some code\<rparr> | Some _ \<Rightarrow> w)"

text \<open>
  \<open>WriteHeader\<close> panics, before it sends anything, on a status code below 100 or above
  999 (\<open>checkWriteHeaderCode\<close> of \<open>net/http\<close>). The handler calls it with 403, 500
  and, through \<open>Write\<close>, 200, which are valid, and at line 289 with the status code of
  the upstream: \<open>infoRefs\<close> below makes the check there.
\<close>

definition invalidWriteHeaderCode :: "nat \<Rightarrow> bool" where
  "invalidWriteHeaderCode code = (code < 100 \<or> 999 < code)"

definition Write :: "string \<Rightarrow> response \<Rightarrow> response" where
  "Write bs w = (let w' = WriteHeader 200 w in w'\<lparr>body := body w' @ bs\<rparr>)"

definition HeaderSet :: "string \<Rightarrow> string \<Rightarrow> response \<Rightarrow> response" where
  "HeaderSet k v w = w\<lparr>headers := AList.update k v (headers w)\<rparr>"

subsection \<open>The record codec: emitPkt and readPkt\<close>

text \<open>
  The panics of the handler: the runtime's on a slice expression out of range, that
  of \<open>WriteHeader\<close> on an invalid status code, and that of line 443 with its message.
\<close>

datatype panic = SliceBoundsOutOfRange | InvalidWriteHeaderCode nat | PanicMsg string

text \<open>
  \<open>emitPkt\<close> (lines 295-305). \<open>pktline m\<close> is the string that the \<open>Fprintf\<close> call
  formats; \<open>emitPkt\<close> writes it to the response.
\<close>

definition pktline :: "string \<Rightarrow> string" where
  "pktline m = (if length m = 0 then fmt04x 0 else fmt04x (4 + length m + 1) @ m @ [NL])"

definition emitPkt :: "string \<Rightarrow> response \<Rightarrow> response" where
  "emitPkt m w = Write (pktline m) w"

text \<open>
  \<open>readPkt\<close> (lines 308-327) returns the line, the flag \<open>ok\<close> and the buffer that
  remains. The slice expression \<open>data[4:size]\<close> panics when \<open>size < 4\<close> (the bound
  \<open>size \<le> len(data)\<close> has been checked by then).
\<close>

definition readPkt :: "string \<Rightarrow> panic + (string \<times> bool \<times> string)" where
  "readPkt data =
     (if length data < 4 then Inr ([], False, data)
      else case ParseInt (take 4 data) of
             None \<Rightarrow> Inr ([], False, data)
           | Some sz \<Rightarrow>
               if sz = 0 then Inr ([], True, drop 4 data)
               else if int (length data) \<ge> sz then
                 (if sz < 4 then Inl SliceBoundsOutOfRange
                  else Inr (TrimSuffix (take (nat sz - 4) (drop 4 data)) [NL], True,
                            drop (nat sz) data))
               else Inr ([], False, data))"

lemma readPkt_shorter:
  assumes "readPkt data = Inr (line, True, data')"
  shows "length data' < length data"
  using assms
  by (auto simp: readPkt_def split: if_splits option.splits)

subsection \<open>The reference parser: readRef\<close>

definition serviceLine :: string where
  "serviceLine = ''# service=git-upload-pack''"

definition target :: string where
  "target = ''refs/heads/go''"

text \<open>
  The three error exits of \<open>readRef\<close> (lines 352-354, 362-364, 372-374) send status
  500 and the text \<open>invalid reference: \<close> followed by the line.
\<close>

definition invalidReference :: "string \<Rightarrow> response \<Rightarrow> response" where
  "invalidReference line w = Write (''invalid reference: '' @ line) (WriteHeader 500 w)"

text \<open>
  \<open>readRef\<close> (lines 346-376) returns \<open>(hash, ref, options, ok)\<close>, the remaining
  buffer and the response writer. The \<open>nil\<close> slice of options is the empty list: the
  handler only ranges over the options and joins them, where \<open>nil\<close> and the empty
  slice agree. \<open>strings.Split\<close> gives at least one piece, so that \<open>parts[0]\<close> exists;
  \<open>parts[1]\<close> is read only where there are two pieces.
\<close>

definition readRef ::
  "string \<Rightarrow> response \<Rightarrow> panic + ((string \<times> string \<times> string list \<times> bool) \<times> string \<times> response)"
where
  "readRef data w =
     (case readPkt data of
        Inl p \<Rightarrow> Inl p
      | Inr (line, ok, data') \<Rightarrow>
          if line = [] \<and> ok then Inr (([], [], [], True), data', w)
          else if \<not> ok \<or> line = [] then
            Inr (([], [], [], False), data', invalidReference line w)
          else
            let parts = Split line NUL in
            if length parts > 2 then
              Inr (([], [], [], False), data', invalidReference line w)
            else
              let options = (if length parts = 2 then Split (parts ! 1) SP else []);
                  parts = Split (parts ! 0) SP
              in if length parts \<noteq> 2 then
                   Inr (([], [], [], False), data', invalidReference line w)
                 else Inr ((parts ! 0, parts ! 1, options, True), data', w))"

lemma readRef_shorter:
  assumes "readRef data w = Inr ((hash, ref, options, True), data', w')"
  shows "length data' < length data"
proof (cases "readPkt data")
  case (Inl p)
  with assms show ?thesis by (simp add: readRef_def)
next
  case (Inr r)
  obtain line ok d where r: "r = (line, ok, d)" by (cases r)
  from assms Inr r have "ok = True" and "d = data'"
    by (auto simp: readRef_def Let_def split: if_splits)
  with Inr r have "readPkt data = Inr (line, True, data')" by simp
  then show ?thesis by (rule readPkt_shorter)
qed

subsection \<open>The loops of the handler\<close>

text \<open>
  Lines 381-384: read references until one has a name or reading fails. A blank
  record and a flush record both come back from \<open>readRef\<close> with an empty name and
  \<open>ok\<close>, and are skipped alike.
\<close>

function firstRef ::
  "string \<Rightarrow> response \<Rightarrow> panic + ((string \<times> string \<times> string list \<times> bool) \<times> string \<times> response)"
where
  "firstRef data w =
     (case readRef data w of
        Inl p \<Rightarrow> Inl p
      | Inr ((headHash, first, options, ok), data', w') \<Rightarrow>
          if first = [] \<and> ok then firstRef data' w'
          else Inr ((headHash, first, options, ok), data', w'))"
  by pat_completeness auto
termination
  by (relation "measure (\<lambda>(data, w). length data)") (auto dest: readRef_shorter)

text \<open>Lines 390-395: every option that starts with \<open>symref=\<close> is replaced.\<close>

definition rewriteOptions :: "string list \<Rightarrow> string list" where
  "rewriteOptions options =
     map (\<lambda>option. if HasPrefix option ''symref='' then ''symref='' @ target else option)
       options"

text \<open>
  Lines 398-410: read the other references into the map \<open>others\<close> and the list
  \<open>order\<close>, until a reference with an empty hash (the terminal) or a failure. The
  first component of the result is \<open>ok\<close>.
\<close>

function readOthers ::
  "string \<Rightarrow> response \<Rightarrow> (string \<rightharpoonup> string) \<Rightarrow> string list \<Rightarrow>
     panic + (bool \<times> (string \<rightharpoonup> string) \<times> string list \<times> string \<times> response)"
where
  "readOthers data w others order =
     (case readRef data w of
        Inl p \<Rightarrow> Inl p
      | Inr ((refHash, other, options, ok), data', w') \<Rightarrow>
          if \<not> ok then Inr (False, others, order, data', w')
          else if refHash = [] then Inr (True, others, order, data', w')
          else readOthers data' w' (others(other \<mapsto> refHash)) (order @ [other]))"
  by pat_completeness auto
termination
  by (relation "measure (\<lambda>(data, w, others, order). length data)") (auto dest: readRef_shorter)

text \<open>
  Lines 439-446: one record per name in \<open>order\<close>, with the hash that \<open>others\<close>
  holds for it; a name that \<open>others\<close> does not hold panics, with what has been
  written so far already sent.
\<close>

fun emitOthers :: "string list \<Rightarrow> (string \<rightharpoonup> string) \<Rightarrow> response \<Rightarrow> panic option \<times> response" where
  "emitOthers [] others w = (None, w)"
| "emitOthers (other # rest) others w =
     (case others other of
        None \<Rightarrow> (Some (PanicMsg (''invalid other reference: '' @ other)), w)
      | Some hash \<Rightarrow> emitOthers rest others (emitPkt (hash @ '' '' @ other) w))"

subsection \<open>The handler infoRefs\<close>

text \<open>
  \<open>r.URL.Query()\<close> is a Go map from parameter names to their lists of values. It is
  represented by an association list; \<open>map_of\<close> is the lookup and the number of
  distinct keys is \<open>len\<close>.
\<close>

type_synonym Values = "(string \<times> string list) list"

definition lenValues :: "Values \<Rightarrow> nat" where
  "lenValues q = length (remdups (map fst q))"

text \<open>
  The verb \<^verbatim>\<open>%v\<close> on a map of string slices: \<^verbatim>\<open>map[k1:[v1 v2] k2:[v3]]\<close>, keys in
  sorted order.
\<close>

definition fmtValues :: "Values \<Rightarrow> string" where
  "fmtValues q =
     ''map['' @
     Join (map (\<lambda>k. k @ '':['' @ Join (the (map_of q k)) '' '' @ '']'')
             (sort (remdups (map fst q)))) '' '' @
     '']''"

text \<open>
  The condition of line 263, negated: the query the handler accepts. (Go evaluates
  \<open>vs[0]\<close> only when \<open>len(vs)\<close> is 1; the disjunction is true before that otherwise.)
\<close>

definition queryOK :: "Values \<Rightarrow> bool" where
  "queryOK q =
     (case map_of q ''service'' of
        None \<Rightarrow> False
      | Some vs \<Rightarrow> \<not> (lenValues q > 1 \<or> length vs \<noteq> 1 \<or> vs ! 0 \<noteq> ''git-upload-pack''))"

text \<open>
  What \<open>client.Get\<close> and \<open>ioutil.ReadAll\<close> give: an error of the request (with its
  text), an error while reading the body, or the status code of the response with
  the whole body.
\<close>

datatype upstream = GetError string | ReadError string | Upstream nat string

datatype outcome = Returned | Panicked panic

text \<open>
  A run of the handler: whether the upstream was contacted, the response as far as
  it was written, and whether the handler returned or panicked.
\<close>

record run =
  fetched :: bool
  resp :: response
  outcome :: outcome

text \<open>
  Lines 412-447, from the check of the target to the terminal record: the state
  before is the first reference as read, the options as rewritten, and \<open>others\<close> and
  \<open>order\<close> as collected.
\<close>

definition rewriteRefs ::
  "string \<Rightarrow> string \<Rightarrow> string list \<Rightarrow> (string \<rightharpoonup> string) \<Rightarrow> string list \<Rightarrow> response \<Rightarrow>
     outcome \<times> response"
where
  "rewriteRefs headHash first options others order w =
     (case others target of
        None \<Rightarrow>
          (Returned, Write (''invalid target reference: '' @ target) (WriteHeader 500 w))
      | Some targetHash \<Rightarrow>
          let (headHash, first, others, order) =
                (if first = ''HEAD'' then (targetHash, first, others, order)
                 else
                   let headHash = targetHash;
                       first = target;
                       others = others(first \<mapsto> headHash);
                       order = order @ [first];
                       order = sort order;
                       others = others(target := None)
                   in (headHash, first, others, order));
              w = HeaderSet ''Content-Type'' ''application/x-git-upload-pack-advertisement'' w;
              w = HeaderSet ''Cache-Control'' ''no-cache'' w;
              w = emitPkt serviceLine w;
              w = emitPkt [] w;
              w = emitPkt (headHash @ '' '' @ first @ [NUL] @ Join options '' '') w
          in case emitOthers order others w of
               (Some p, w) \<Rightarrow> (Panicked p, w)
             | (None, w) \<Rightarrow> (Returned, emitPkt [] w))"

text \<open>Lines 337-447: the handling of an upstream body that came with status 200.\<close>

definition advertise :: "string \<Rightarrow> response \<Rightarrow> outcome \<times> response" where
  "advertise data w =
     (case readPkt data of
        Inl p \<Rightarrow> (Panicked p, w)
      | Inr (header, ok, data) \<Rightarrow>
          if \<not> ok \<or> header \<noteq> serviceLine then
            (Returned, Write (''invalid upstream header: '' @ header) (WriteHeader 500 w))
          else
            case firstRef data w of
              Inl p \<Rightarrow> (Panicked p, w)
            | Inr ((headHash, first, options, ok), data, w) \<Rightarrow>
                if \<not> ok then (Returned, w)
                else
                  let options = rewriteOptions options in
                  case readOthers data w Map.empty [] of
                    Inl p \<Rightarrow> (Panicked p, w)
                  | Inr (ok, others, order, data, w) \<Rightarrow>
                      if \<not> ok then (Returned, w)
                      else rewriteRefs headHash first options others order w)"

text \<open>The handler (lines 250-448), run on a query and on what the upstream gives.\<close>

definition infoRefs :: "Values \<Rightarrow> upstream \<Rightarrow> run" where
  "infoRefs q up =
     (if \<not> queryOK q then
        \<lparr>fetched = False,
         resp = Write (''invalid query: '' @ fmtValues q) (WriteHeader 403 w0),
         outcome = Returned\<rparr>
      else
        case up of
          GetError err \<Rightarrow>
            \<lparr>fetched = True,
             resp = Write (''upstream get error: '' @ err) (WriteHeader 500 w0),
             outcome = Returned\<rparr>
        | ReadError err \<Rightarrow>
            \<lparr>fetched = True,
             resp = Write (''upstream read error: '' @ err) (WriteHeader 500 w0),
             outcome = Returned\<rparr>
        | Upstream code data \<Rightarrow>
            if code \<noteq> 200 then
              (if invalidWriteHeaderCode code then
                 \<lparr>fetched = True, resp = w0, outcome = Panicked (InvalidWriteHeaderCode code)\<rparr>
               else
                 \<lparr>fetched = True, resp = Write data (WriteHeader code w0),
                  outcome = Returned\<rparr>)
            else
              let (out, w) = advertise data w0
              in \<lparr>fetched = True, resp = w, outcome = out\<rparr>)"

subsection \<open>Notions of the specification\<close>

text \<open>
  Decoding a whole buffer record by record, until it is empty: the decoder of a
  sequence of records. \<open>None\<close> when a record does not decode.
\<close>

function readPkts :: "string \<Rightarrow> string list option" where
  "readPkts data =
     (if data = [] then Some []
      else case readPkt data of
             Inl p \<Rightarrow> None
           | Inr (m, ok, data') \<Rightarrow>
               if ok then (case readPkts data' of None \<Rightarrow> None | Some ms \<Rightarrow> Some (m # ms))
               else None)"
  by pat_completeness auto
termination
  by (relation "measure length") (auto dest: readPkt_shorter)

text \<open>
  The query parameters are exactly one parameter \<open>service\<close> with the one value
  \<open>git-upload-pack\<close>.
\<close>

definition exactQuery :: "Values \<Rightarrow> bool" where
  "exactQuery q = (set (map fst q) = {''service''} \<and> map_of q ''service'' = Some [''git-upload-pack''])"

text \<open>
  The part of \<open>readRef\<close> that takes a non-empty line apart (lines 360-375), on its
  own: the hash, the name and the options, or \<open>None\<close> where \<open>readRef\<close> reports an
  invalid reference.
\<close>

definition parseRef :: "string \<Rightarrow> (string \<times> string \<times> string list) option" where
  "parseRef line =
     (let parts = Split line NUL in
      if length parts > 2 then None
      else
        let options = (if length parts = 2 then Split (parts ! 1) SP else []);
            parts = Split (parts ! 0) SP
        in if length parts \<noteq> 2 then None else Some (parts ! 0, parts ! 1, options))"

text \<open>A string without a space and without a NUL byte.\<close>

definition plain :: "string \<Rightarrow> bool" where
  "plain s = (SP \<notin> set s \<and> NUL \<notin> set s)"

text \<open>
  The advertisement as the handler reads it. \<open>readEntries\<close> follows the loop of lines
  400-410 and keeps every reference it reads, as the pair of its hash and its name,
  in the order of the upstream; \<open>decodeAdvert\<close> is the header check, the first reference
  with its options, and these entries. \<open>None\<close> where the handler would stop.
\<close>

function readEntries :: "string \<Rightarrow> (string \<times> string) list option" where
  "readEntries data =
     (case readRef data w0 of
        Inl p \<Rightarrow> None
      | Inr ((refHash, other, options, ok), data', w') \<Rightarrow>
          if \<not> ok then None
          else if refHash = [] then Some []
          else (case readEntries data' of
                  None \<Rightarrow> None
                | Some es \<Rightarrow> Some ((refHash, other) # es)))"
  by pat_completeness auto
termination
  by (relation "measure length") (auto dest: readRef_shorter)

definition decodeAdvert ::
  "string \<Rightarrow> ((string \<times> string \<times> string list) \<times> (string \<times> string) list) option"
where
  "decodeAdvert data =
     (case readPkt data of
        Inl p \<Rightarrow> None
      | Inr (header, ok, data) \<Rightarrow>
          if \<not> ok \<or> header \<noteq> serviceLine then None
          else
            case firstRef data w0 of
              Inl p \<Rightarrow> None
            | Inr ((headHash, first, options, ok), data, w) \<Rightarrow>
                if \<not> ok then None
                else
                  case readEntries data of
                    None \<Rightarrow> None
                  | Some es \<Rightarrow> Some ((headHash, first, options), es))"

text \<open>
  The first reference of an advertisement, read as the handler reads it (lines
  338-384): the header check, then the first reference that has a name, with its
  hash and its capability list.
\<close>

definition firstEntry :: "string \<Rightarrow> (string \<times> string \<times> string list) option" where
  "firstEntry data =
     (case readPkt data of
        Inl p \<Rightarrow> None
      | Inr (header, ok, data) \<Rightarrow>
          if \<not> ok \<or> header \<noteq> serviceLine then None
          else
            case firstRef data w0 of
              Inl p \<Rightarrow> None
            | Inr ((headHash, first, options, ok), data, w) \<Rightarrow>
                if \<not> ok then None else Some (headHash, first, options))"

text \<open>
  The mapping from reference name to hash that the entries give when they are
  stored one after the other: a later entry of the same name replaces an earlier one.
\<close>

fun collect :: "(string \<rightharpoonup> string) \<Rightarrow> (string \<times> string) list \<Rightarrow> (string \<rightharpoonup> string)" where
  "collect others [] = others"
| "collect others ((refHash, other) # es) = collect (others(other \<mapsto> refHash)) es"

text \<open>
  The hash that this mapping holds for a name, the hash of the last entry of the
  name, and the entries with each hash replaced by it: what the loop of lines
  439-446 writes for the names in their order.
\<close>

definition lastHash :: "(string \<times> string) list \<Rightarrow> string \<Rightarrow> string" where
  "lastHash es n = the (collect Map.empty es n)"

definition emitted :: "(string \<times> string) list \<Rightarrow> (string \<times> string) list" where
  "emitted es = map (\<lambda>(h, n). (lastHash es n, n)) es"

text \<open>
  The multiset of the pairs of hash and name among the reference entries of an
  advertisement: the first reference and the others.
\<close>

definition refPairs :: "string \<Rightarrow> (string \<times> string) multiset option" where
  "refPairs data =
     (case decodeAdvert data of
        None \<Rightarrow> None
      | Some ((headHash, first, options), es) \<Rightarrow> Some (mset ((headHash, first) # es)))"

text \<open>
  The re-encoding of section 4.4, step 5: the service header record, one blank
  record, the first entry (hash, name, NUL, the capabilities joined by spaces), one
  record per remaining entry, and a final flush record.
\<close>

definition encodeAdvert :: "string \<times> string \<times> string list \<Rightarrow> (string \<times> string) list \<Rightarrow> string" where
  "encodeAdvert f es =
     (case f of (hash, name, caps) \<Rightarrow>
        pktline serviceLine @ pktline [] @
        pktline (hash @ '' '' @ name @ [NUL] @ Join caps '' '') @
        concat (map (\<lambda>(h, n). pktline (h @ '' '' @ n)) es) @
        pktline [])"

text \<open>The headers of a rewritten advertisement (lines 434-435).\<close>

definition advertHeaders :: "(string \<times> string) list" where
  "advertHeaders =
     [(''Content-Type'', ''application/x-git-upload-pack-advertisement''),
      (''Cache-Control'', ''no-cache'')]"

text \<open>
  The example of section 8, with hashes of 40 digits: the header, a blank record,
  the first reference \<open>HEAD\<close> with the capabilities
  \<open>symref=HEAD:refs/heads/main capA capB\<close>, then \<open>refs/heads/main\<close>, \<open>refs/heads/dev\<close>
  and \<open>refs/heads/go\<close>, and the flush record.
\<close>

definition hashA :: string where "hashA = ''aaaaaaaaaaaaaaaaaaaaaaaaaaaaaaaaaaaaaaaa''"
definition hashB :: string where "hashB = ''bbbbbbbbbbbbbbbbbbbbbbbbbbbbbbbbbbbbbbbb''"
definition hashC :: string where "hashC = ''cccccccccccccccccccccccccccccccccccccccc''"
definition hashD :: string where "hashD = ''dddddddddddddddddddddddddddddddddddddddd''"

definition exampleHEAD :: string where
  "exampleHEAD =
     ''001e# service=git-upload-pack'' @ [NL] @
     ''0000'' @
     ''0058aaaaaaaaaaaaaaaaaaaaaaaaaaaaaaaaaaaaaaaa HEAD'' @ [NUL] @
       ''symref=HEAD:refs/heads/main capA capB'' @ [NL] @
     ''003daaaaaaaaaaaaaaaaaaaaaaaaaaaaaaaaaaaaaaaa refs/heads/main'' @ [NL] @
     ''003cbbbbbbbbbbbbbbbbbbbbbbbbbbbbbbbbbbbbbbbb refs/heads/dev'' @ [NL] @
     ''003bcccccccccccccccccccccccccccccccccccccccc refs/heads/go'' @ [NL] @
     ''0000''"

text \<open>
  What the handler writes for it: \<open>HEAD\<close> with the hash of \<open>refs/heads/go\<close> and the
  capability \<open>symref=refs/heads/go\<close>, and the other references as they came.
\<close>

definition exampleHEADRewritten :: string where
  "exampleHEADRewritten =
     ''001e# service=git-upload-pack'' @ [NL] @
     ''0000'' @
     ''0051cccccccccccccccccccccccccccccccccccccccc HEAD'' @ [NUL] @
       ''symref=refs/heads/go capA capB'' @ [NL] @
     ''003daaaaaaaaaaaaaaaaaaaaaaaaaaaaaaaaaaaaaaaa refs/heads/main'' @ [NL] @
     ''003cbbbbbbbbbbbbbbbbbbbbbbbbbbbbbbbbbbbbbbbb refs/heads/dev'' @ [NL] @
     ''003bcccccccccccccccccccccccccccccccccccccccc refs/heads/go'' @ [NL] @
     ''0000''"

text \<open>
  An advertisement whose first reference is not \<open>HEAD\<close>: \<open>refs/heads/main\<close> first,
  then \<open>refs/heads/dev\<close>, \<open>refs/heads/go\<close> and \<open>refs/tags/v1\<close>.
\<close>

definition exampleBranchFirst :: string where
  "exampleBranchFirst =
     ''001e# service=git-upload-pack'' @ [NL] @
     ''0000'' @
     ''0063aaaaaaaaaaaaaaaaaaaaaaaaaaaaaaaaaaaaaaaa refs/heads/main'' @ [NUL] @
       ''symref=HEAD:refs/heads/main capA capB'' @ [NL] @
     ''003cbbbbbbbbbbbbbbbbbbbbbbbbbbbbbbbbbbbbbbbb refs/heads/dev'' @ [NL] @
     ''003bcccccccccccccccccccccccccccccccccccccccc refs/heads/go'' @ [NL] @
     ''003adddddddddddddddddddddddddddddddddddddddd refs/tags/v1'' @ [NL] @
     ''0000''"

text \<open>
  What the handler has written for it when it panics: the header, the blank
  record, the first entry \<open>refs/heads/go\<close> and the entry \<open>refs/heads/dev\<close>.
\<close>

definition exampleBranchFirstWritten :: string where
  "exampleBranchFirstWritten =
     ''001e# service=git-upload-pack'' @ [NL] @
     ''0000'' @
     ''005acccccccccccccccccccccccccccccccccccccccc refs/heads/go'' @ [NUL] @
       ''symref=refs/heads/go capA capB'' @ [NL] @
     ''003cbbbbbbbbbbbbbbbbbbbbbbbbbbbbbbbbbbbbbbbb refs/heads/dev'' @ [NL]"

text \<open>
  An advertisement that names \<open>refs/heads/go\<close> twice, with two hashes: \<open>HEAD\<close>, then
  \<open>refs/heads/go\<close>, \<open>refs/heads/dev\<close> and \<open>refs/heads/go\<close> again; and what the handler
  writes for it.
\<close>

definition exampleTwice :: string where
  "exampleTwice =
     ''001e# service=git-upload-pack'' @ [NL] @
     ''0000'' @
     ''0058aaaaaaaaaaaaaaaaaaaaaaaaaaaaaaaaaaaaaaaa HEAD'' @ [NUL] @
       ''symref=HEAD:refs/heads/main capA capB'' @ [NL] @
     ''003baaaaaaaaaaaaaaaaaaaaaaaaaaaaaaaaaaaaaaaa refs/heads/go'' @ [NL] @
     ''003cbbbbbbbbbbbbbbbbbbbbbbbbbbbbbbbbbbbbbbbb refs/heads/dev'' @ [NL] @
     ''003bcccccccccccccccccccccccccccccccccccccccc refs/heads/go'' @ [NL] @
     ''0000''"

definition exampleTwiceRewritten :: string where
  "exampleTwiceRewritten =
     ''001e# service=git-upload-pack'' @ [NL] @
     ''0000'' @
     ''0051cccccccccccccccccccccccccccccccccccccccc HEAD'' @ [NUL] @
       ''symref=refs/heads/go capA capB'' @ [NL] @
     ''003bcccccccccccccccccccccccccccccccccccccccc refs/heads/go'' @ [NL] @
     ''003cbbbbbbbbbbbbbbbbbbbbbbbbbbbbbbbbbbbbbbbb refs/heads/dev'' @ [NL] @
     ''003bcccccccccccccccccccccccccccccccccccccccc refs/heads/go'' @ [NL] @
     ''0000''"


text \<open>The query \<open>service=git-upload-pack\<close>.\<close>

definition serviceQuery :: Values where
  "serviceQuery = [(''service'', [''git-upload-pack''])]"

section \<open>Lemmas\<close>

declare readPkts.simps [simp del] firstRef.simps [simp del] readOthers.simps [simp del]
  readEntries.simps [simp del]

declare hex_of.simps [simp del]

subsection \<open>The length field: formatting and parsing\<close>

lemma digit16_hexdigit_all: "\<forall>d \<in> set [0..<16]. digit16 (hexdigit d) = Some d"
  by code_simp

lemma digit16_hexdigit: "d < 16 \<Longrightarrow> digit16 (hexdigit d) = Some d"
  using digit16_hexdigit_all by simp

lemma hexdigit_lower_all: "\<forall>d \<in> set [0..<16]. hexdigit d \<in> set ''0123456789abcdef''"
  by code_simp

lemma hexdigit_lower: "d < 16 \<Longrightarrow> hexdigit d \<in> set ''0123456789abcdef''"
  using hexdigit_lower_all by simp

lemma digits16_append:
  "digits16 a (xs @ ys) = (case digits16 a xs of None \<Rightarrow> None | Some b \<Rightarrow> digits16 b ys)"
  by (induction xs arbitrary: a) (auto split: option.splits)

lemma digits16_hex_of: "digits16 a (hex_of n) = Some (a * 16 ^ length (hex_of n) + n)"
proof (induction n arbitrary: a rule: hex_of.induct)
  case (1 n)
  show ?case
  proof (cases "n < 16")
    case True
    then show ?thesis by (simp add: hex_of.simps [of n] digit16_hexdigit)
  next
    case False
    have "digits16 a (hex_of n) = digits16 a (hex_of (n div 16) @ [hexdigit (n mod 16)])"
      using False by (simp add: hex_of.simps [of n])
    also have "\<dots> = Some ((a * 16 ^ length (hex_of (n div 16)) + n div 16) * 16 + n mod 16)"
      using "1.IH" [OF False] by (simp add: digits16_append digit16_hexdigit)
    also have "\<dots> = Some (a * 16 ^ length (hex_of n) + n)"
      using False by (simp add: hex_of.simps [of n] algebra_simps)
    finally show ?thesis .
  qed
qed

lemma digits16_zeros: "digits16 a (replicate k (CHR ''0'')) = Some (a * 16 ^ k)"
  by (induction k arbitrary: a) (auto simp: digit16_def lower_def)

lemma length_hex_of_pos: "length (hex_of n) \<ge> 1"
  by (cases "n < 16") (simp_all add: hex_of.simps [of n])

lemma length_hex_of: "length (hex_of n) \<le> Suc k \<longleftrightarrow> n < 16 ^ Suc k"
proof (induction k arbitrary: n)
  case 0
  show ?case using length_hex_of_pos [of "n div 16"]
    by (cases "n < 16") (auto simp: hex_of.simps [of n])
next
  case (Suc k)
  show ?case
  proof (cases "n < 16")
    case True
    have "(16::nat) ^ 1 \<le> 16 ^ Suc (Suc k)" by (rule power_increasing) simp_all
    then have "(16::nat) \<le> 16 ^ Suc (Suc k)" by simp
    with True have "n < 16 ^ Suc (Suc k)" by linarith
    moreover have "length (hex_of n) = 1" using True by (simp add: hex_of.simps [of n])
    ultimately show ?thesis by simp
  next
    case False
    have "n div 16 < 16 ^ Suc k \<longleftrightarrow> n < 16 ^ Suc (Suc k)"
      by (simp add: less_mult_imp_div_less div_less_iff_less_mult mult.commute)
    with False Suc [of "n div 16"] show ?thesis by (simp add: hex_of.simps [of n])
  qed
qed

lemma set_hex_of: "set (hex_of n) \<subseteq> set ''0123456789abcdef''"
proof (induction n rule: hex_of.induct)
  case (1 n)
  show ?case
  proof (cases "n < 16")
    case True
    then show ?thesis using hexdigit_lower [of n] by (simp add: hex_of.simps [of n])
  next
    case False
    then show ?thesis using "1.IH" hexdigit_lower [of "n mod 16"]
      by (simp add: hex_of.simps [of n])
  qed
qed

lemma length_fmt04x: "n < 65536 \<Longrightarrow> length (fmt04x n) = 4"
  using length_hex_of [of n 3] by (simp add: fmt04x_def)

lemma length_fmt04x_big: "n \<ge> 65536 \<Longrightarrow> length (fmt04x n) > 4"
  using length_hex_of [of n 3] by (simp add: fmt04x_def)

lemma set_fmt04x: "set (fmt04x n) \<subseteq> set ''0123456789abcdef''"
  using set_hex_of [of n] by (auto simp: fmt04x_def)

lemma digits16_fmt04x: "digits16 0 (fmt04x n) = Some n"
  by (simp add: fmt04x_def digits16_append digits16_zeros digits16_hex_of)

lemma fmt04x_nonempty: "fmt04x n \<noteq> []"
  using length_hex_of_pos [of n] by (auto simp: fmt04x_def)

lemma ParseInt_fmt04x: "n < 2 ^ 31 \<Longrightarrow> ParseInt (fmt04x n) = Some (int n)"
proof -
  assume n: "n < 2 ^ 31"
  obtain c cs where f: "fmt04x n = c # cs" using fmt04x_nonempty [of n] by (cases "fmt04x n") auto
  have "c \<in> set ''0123456789abcdef''" using set_fmt04x [of n] f by auto
  then have c: "c \<noteq> CHR ''+''" "c \<noteq> CHR ''-''" by auto
  have "ParseUint (fmt04x n) = Some n" using n digits16_fmt04x [of n] fmt04x_nonempty [of n]
    by (simp add: ParseUint_def)
  then show ?thesis using c n f by (simp add: ParseInt_def)
qed

lemma replicate_numeral: "replicate (numeral k) x = x # replicate (pred_numeral k) x"
  by (simp add: numeral_eq_Suc)

lemmas fmt04x_eval = fmt04x_def hex_of.simps hexdigit_def replicate_numeral

subsection \<open>The record codec\<close>

lemma TrimSuffix_NL: "TrimSuffix (m @ [NL]) [NL] = m"
  by (simp add: TrimSuffix_def HasSuffix_def)

lemma readPkt_pktline:
  assumes "length m < 65531"
  shows "readPkt (pktline m @ rest) = Inr (m, True, rest)"
proof (cases "m = []")
  case True
  have "fmt04x 0 = ''0000''" by (simp add: fmt04x_eval)
  moreover have "ParseInt ''0000'' = Some 0" by (simp add: ParseInt_def ParseUint_def digit16_def lower_def)
  ultimately show ?thesis using True by (simp add: pktline_def readPkt_def)
next
  case False
  let ?n = "4 + length m + 1"
  have n: "?n < 65536" using assms by simp
  have len: "length (fmt04x ?n) = 4" using n by (rule length_fmt04x)
  have p: "ParseInt (fmt04x ?n) = Some (int ?n)" using n by (intro ParseInt_fmt04x) simp
  have pk: "pktline m = fmt04x ?n @ m @ [NL]" using False by (simp add: pktline_def)
  have nat5: "nat (5 + int (length m)) = 5 + length m" by simp
  show ?thesis unfolding pk readPkt_def using len p False
    by (simp add: TrimSuffix_NL nat5)
qed

text \<open>
  Every outcome of \<open>readPkt\<close>: not-ok with the buffer untouched, a flush record, a
  payload, or the panic of the slice expression when the length field is 1, 2, 3 or
  negative.
\<close>

lemma readPkt_outcomes:
  "readPkt data = Inr ([], False, data)
   \<or> (4 \<le> length data \<and> ParseInt (take 4 data) = Some 0 \<and> readPkt data = Inr ([], True, drop 4 data))
   \<or> (\<exists>n. 4 \<le> n \<and> n \<le> length data \<and> ParseInt (take 4 data) = Some (int n) \<and>
          readPkt data = Inr (TrimSuffix (take (n - 4) (drop 4 data)) [NL], True, drop n data))
   \<or> (\<exists>sz. 4 \<le> length data \<and> ParseInt (take 4 data) = Some sz \<and> sz \<noteq> 0 \<and> sz < 4 \<and>
          readPkt data = Inl SliceBoundsOutOfRange)"
proof (cases "length data < 4")
  case True
  then show ?thesis by (simp add: readPkt_def)
next
  case len: False
  show ?thesis
  proof (cases "ParseInt (take 4 data)")
    case None
    with len show ?thesis by (simp add: readPkt_def)
  next
    case (Some sz)
    consider "sz = 0" | "sz \<noteq> 0" "int (length data) < sz" | "sz \<noteq> 0" "sz \<le> int (length data)" "sz < 4"
      | "4 \<le> sz" "sz \<le> int (length data)" by linarith
    then show ?thesis
    proof cases
      case 1
      with len Some show ?thesis by (simp add: readPkt_def)
    next
      case 2
      with len Some show ?thesis by (simp add: readPkt_def)
    next
      case 3
      with len Some show ?thesis by (simp add: readPkt_def)
    next
      case 4
      then have "4 \<le> nat sz" and "nat sz \<le> length data" and "sz = int (nat sz)" by linarith+
      moreover have "readPkt data =
          Inr (TrimSuffix (take (nat sz - 4) (drop 4 data)) [NL], True, drop (nat sz) data)"
        using 4 len Some by (simp add: readPkt_def)
      ultimately show ?thesis using Some by metis
    qed
  qed
qed

lemma readPkt_panic: "readPkt data = Inl p \<Longrightarrow> p = SliceBoundsOutOfRange"
  by (auto simp: readPkt_def split: if_splits option.splits)

lemma readPkts_pktlines:
  "\<forall>p \<in> set ps. length p < 65531 \<Longrightarrow> readPkts (concat (map pktline ps)) = Some ps"
proof (induction ps)
  case Nil
  show ?case by (simp add: readPkts.simps [of "[]"])
next
  case (Cons p ps)
  have ne: "pktline p @ concat (map pktline ps) \<noteq> []"
    by (simp add: pktline_def fmt04x_nonempty)
  have "readPkt (pktline p @ concat (map pktline ps)) = Inr (p, True, concat (map pktline ps))"
    using Cons.prems by (intro readPkt_pktline) simp
  with ne Cons show ?case
    by (simp add: readPkts.simps [of "pktline p @ concat (map pktline ps)"])
qed

text \<open>
  A payload of 65531 bytes: the length \<open>65536\<close> is printed with five digits,
  \<open>10000\<close>, and the decoder reads the first four as the length 4096.
\<close>

lemma readPkt_pktline_long:
  assumes "length p = 65531"
  shows "\<exists>m d. readPkt (pktline p) = Inr (m, True, d) \<and> d \<noteq> []"
proof -
  have f: "fmt04x 65536 = ''10000''" by (simp add: fmt04x_eval)
  have q: "ParseInt ''1000'' = Some 4096"
    by (simp add: ParseInt_def ParseUint_def digit16_def lower_def)
  have ne: "p \<noteq> []" using assms by auto
  have pk: "pktline p = ''10000'' @ p @ [NL]"
    using f ne assms by (simp add: pktline_def)
  have len: "length (pktline p) = 65537" using assms by (simp add: pk)
  have t: "take 4 (pktline p) = ''1000''" by (simp add: pk)
  have "length (drop 4096 (pktline p)) = 61441" using len by simp
  then have d: "drop 4096 (pktline p) \<noteq> []" by auto
  have "readPkt (pktline p) =
          Inr (TrimSuffix (take 4092 (drop 4 (pktline p))) [NL], True, drop 4096 (pktline p))"
    unfolding readPkt_def using q t len by simp
  with d show ?thesis by blast
qed

subsection \<open>The query of the request\<close>

lemma lenValues_card: "lenValues q = card (dom (map_of q))"
  using card_set [of "map fst q"] by (simp add: lenValues_def dom_map_of_conv_image_fst)

lemma queryOK_exact: "queryOK q = exactQuery q"
proof
  assume "queryOK q"
  then obtain vs where vs: "map_of q ''service'' = Some vs" and n: "lenValues q \<le> 1"
    and l: "length vs = 1" and v: "vs ! 0 = ''git-upload-pack''"
    by (auto simp: queryOK_def split: option.splits)
  from l v have "vs = [''git-upload-pack'']" by (cases vs) auto
  moreover have "''service'' \<in> set (map fst q)" using vs by (force dest!: map_of_SomeD)
  moreover have "card (set (map fst q)) \<le> 1" using n card_set [of "map fst q"] by (simp add: lenValues_def)
  then have "\<And>x y. x \<in> set (map fst q) \<Longrightarrow> y \<in> set (map fst q) \<Longrightarrow> x = y"
    by (metis List.finite_set card_le_Suc0_iff_eq One_nat_def)
  ultimately show "exactQuery q" using vs unfolding exactQuery_def by blast
next
  assume e: "exactQuery q"
  then have "card (set (map fst q)) = 1" by (simp add: exactQuery_def)
  then have "lenValues q = 1" using card_set [of "map fst q"] by (simp add: lenValues_def)
  with e show "queryOK q" by (simp add: queryOK_def exactQuery_def)
qed

lemma exactQuery_fetch:
  "exactQuery q \<Longrightarrow>
     infoRefs q (Upstream 200 data) =
       (case advertise data w0 of (out, w) \<Rightarrow> \<lparr>fetched = True, resp = w, outcome = out\<rparr>)"
  by (simp add: infoRefs_def queryOK_exact)

lemma serviceQuery_exact: "exactQuery serviceQuery"
  by (simp add: exactQuery_def serviceQuery_def)

subsection \<open>Splitting and joining\<close>

lemma HasPrefix_iff: "HasPrefix s pre \<longleftrightarrow> (\<exists>rest. s = pre @ rest)"
proof
  assume "HasPrefix s pre"
  then have "s = pre @ drop (length pre) s"
    by (metis HasPrefix_def append_take_drop_id)
  then show "\<exists>rest. s = pre @ rest" ..
next
  assume "\<exists>rest. s = pre @ rest"
  then show "HasPrefix s pre" by (auto simp: HasPrefix_def)
qed

lemma Split_nonempty: "Split s c \<noteq> []"
  by (induction s) (auto split: list.splits)

lemma Split_none: "c \<notin> set s \<Longrightarrow> Split s c = [s]"
  by (induction s) auto

lemma Split_append: "c \<notin> set a \<Longrightarrow> Split (a @ c # b) c = a # Split b c"
  by (induction a) (auto split: list.splits)

lemma Split_pieces: "p \<in> set (Split s c) \<Longrightarrow> c \<notin> set p \<and> set p \<subseteq> set s"
proof (induction s arbitrary: p)
  case Nil
  then show ?case by simp
next
  case (Cons x s)
  show ?case
  proof (cases "x = c")
    case True
    with Cons.prems have "p = [] \<or> p \<in> set (Split s c)" by auto
    with Cons.IH show ?thesis by auto
  next
    case False
    obtain q qs where q: "Split s c = q # qs" using Split_nonempty [of s c] by (cases "Split s c") auto
    with False Cons.prems have "p = x # q \<or> p \<in> set qs" by auto
    moreover have "c \<notin> set q \<and> set q \<subseteq> set s" using Cons.IH [of q] q by simp
    moreover have "p \<in> set qs \<Longrightarrow> c \<notin> set p \<and> set p \<subseteq> set s" using Cons.IH [of p] q by simp
    ultimately show ?thesis using False by auto
  qed
qed

lemma Split_Join:
  "caps \<noteq> [] \<Longrightarrow> \<forall>c \<in> set caps. SP \<notin> set c \<Longrightarrow> Split (Join caps '' '') SP = caps"
proof (induction caps "'' ''" rule: Join.induct)
  case 1
  then show ?case by simp
next
  case (2 e)
  then show ?case by (simp add: Split_none)
next
  case (3 e v va)
  then have "Split (Join (v # va) '' '') SP = v # va" by simp
  moreover have "SP \<notin> set e" using 3 by simp
  ultimately show ?case using Split_append [of SP e "Join (v # va) '' ''"] by simp
qed

lemma Join_no_NUL: "\<forall>c \<in> set cs. NUL \<notin> set c \<Longrightarrow> NUL \<notin> set (Join cs '' '')"
  by (induction cs "'' ''" rule: Join.induct) auto

lemma parseRef_entry:
  assumes "plain h" and "plain n"
  shows "parseRef (h @ '' '' @ n) = Some (h, n, [])"
proof -
  have "NUL \<notin> set (h @ SP # n)" using assms by (simp add: plain_def)
  then have 1: "Split (h @ SP # n) NUL = [h @ SP # n]" by (rule Split_none)
  have "Split (h @ SP # n) SP = h # Split n SP" using assms by (intro Split_append) (simp add: plain_def)
  moreover have "Split n SP = [n]" using assms by (intro Split_none) (simp add: plain_def)
  ultimately have 2: "Split (h @ SP # n) SP = [h, n]" by simp
  show ?thesis by (simp add: parseRef_def 1 2)
qed

lemma parseRef_first:
  assumes "plain h" and "plain n" and "NUL \<notin> set c"
  shows "parseRef (h @ '' '' @ n @ [NUL] @ c) = Some (h, n, Split c SP)"
proof -
  have "NUL \<notin> set (h @ SP # n)" using assms by (simp add: plain_def)
  then have "Split ((h @ SP # n) @ NUL # c) NUL = (h @ SP # n) # Split c NUL" by (rule Split_append)
  moreover have "Split c NUL = [c]" using assms(3) by (rule Split_none)
  ultimately have 1: "Split (h @ SP # n @ NUL # c) NUL = [h @ SP # n, c]" by simp
  have "Split (h @ SP # n) SP = h # Split n SP" using assms by (intro Split_append) (simp add: plain_def)
  moreover have "Split n SP = [n]" using assms by (intro Split_none) (simp add: plain_def)
  ultimately have 2: "Split (h @ SP # n) SP = [h, n]" by simp
  show ?thesis by (simp add: parseRef_def 1 2)
qed

lemma plain_Nil: "plain []"
  by (simp add: plain_def)

lemma parseRef_plain:
  assumes "parseRef line = Some (h, n, os)"
  shows "plain h \<and> plain n \<and> (\<forall>c \<in> set os. SP \<notin> set c \<and> NUL \<notin> set c)"
proof -
  let ?parts = "Split line NUL"
  from assms have len: "length ?parts \<le> 2" and l2: "length (Split (?parts ! 0) SP) = 2"
    and h: "h = Split (?parts ! 0) SP ! 0" and n: "n = Split (?parts ! 0) SP ! 1"
    and os: "os = (if length ?parts = 2 then Split (?parts ! 1) SP else [])"
    by (auto simp: parseRef_def Let_def split: if_splits)
  have "?parts ! 0 \<in> set ?parts" using Split_nonempty [of line NUL] by (cases ?parts) auto
  then have p0: "NUL \<notin> set (?parts ! 0)" using Split_pieces by blast
  have "h \<in> set (Split (?parts ! 0) SP)" and "n \<in> set (Split (?parts ! 0) SP)"
    using l2 h n by (auto intro: nth_mem)
  then have "SP \<notin> set h \<and> set h \<subseteq> set (?parts ! 0)" and "SP \<notin> set n \<and> set n \<subseteq> set (?parts ! 0)"
    using Split_pieces by blast+
  with p0 have hn: "plain h" "plain n" by (auto simp: plain_def)
  have "SP \<notin> set c \<and> NUL \<notin> set c" if c: "c \<in> set os" for c
  proof -
    from c os have two: "length ?parts = 2" and cs: "c \<in> set (Split (?parts ! 1) SP)"
      by (auto split: if_splits)
    from two have "?parts ! 1 \<in> set ?parts" by (auto intro: nth_mem)
    then have "NUL \<notin> set (?parts ! 1)" using Split_pieces by blast
    moreover from cs have "SP \<notin> set c \<and> set c \<subseteq> set (?parts ! 1)" using Split_pieces by blast
    ultimately show ?thesis by auto
  qed
  with hn show ?thesis by blast
qed

subsection \<open>Reading the references\<close>

lemma readRef_parseRef:
  "readRef data w =
     (case readPkt data of
        Inl p \<Rightarrow> Inl p
      | Inr (line, ok, data') \<Rightarrow>
          if line = [] \<and> ok then Inr (([], [], [], True), data', w)
          else if \<not> ok \<or> line = [] then Inr (([], [], [], False), data', invalidReference line w)
          else (case parseRef line of
                  None \<Rightarrow> Inr (([], [], [], False), data', invalidReference line w)
                | Some (h, r, os) \<Rightarrow> Inr ((h, r, os, True), data', w)))"
  by (auto simp: readRef_def parseRef_def Let_def split: sum.splits prod.splits)

lemma readRef_ok_same:
  "readRef data w = Inr ((h, r, os, True), d, w') \<Longrightarrow> w' = w"
  unfolding readRef_parseRef
  by (auto split: sum.splits prod.splits if_splits option.splits)

lemma readRef_ok_any:
  "readRef data w = Inr ((h, r, os, True), d, w') \<Longrightarrow>
     readRef data w2 = Inr ((h, r, os, True), d, w2)"
  unfolding readRef_parseRef
  by (auto split: sum.splits prod.splits if_splits option.splits)

lemma readRef_panic: "readRef data w = Inl p \<longleftrightarrow> readPkt data = Inl p"
  unfolding readRef_parseRef
  by (auto split: sum.splits prod.splits if_splits option.splits)

lemma readRef_not_ok:
  "readRef data w = Inr ((h, r, os, False), d, w') \<Longrightarrow> \<exists>line. w' = invalidReference line w"
  unfolding readRef_parseRef
  by (auto split: sum.splits prod.splits if_splits option.splits)

lemma readRef_plain:
  assumes "readRef data w = Inr ((h, n, os, True), d, w')"
  shows "plain h \<and> plain n \<and> (\<forall>c \<in> set os. SP \<notin> set c \<and> NUL \<notin> set c)"
proof -
  from assms have "(h = [] \<and> n = [] \<and> os = []) \<or> (\<exists>line. parseRef line = Some (h, n, os))"
    unfolding readRef_parseRef
    by (auto split: sum.splits prod.splits if_splits option.splits)
  then show ?thesis using parseRef_plain plain_Nil by auto
qed

lemma readRef_pktline:
  assumes "length line < 65531" and "line \<noteq> []" and "parseRef line = Some (h, n, os)"
  shows "readRef (pktline line @ rest) w = Inr ((h, n, os, True), rest, w)"
proof -
  have "readPkt (pktline line @ rest) = Inr (line, True, rest)" using assms(1) by (rule readPkt_pktline)
  then show ?thesis using assms(2,3) by (simp add: readRef_parseRef)
qed

lemma readRef_blank: "readRef (pktline [] @ rest) w = Inr (([], [], [], True), rest, w)"
proof -
  have "readPkt (pktline [] @ rest) = Inr ([], True, rest)" by (rule readPkt_pktline) simp
  then show ?thesis by (simp add: readRef_parseRef)
qed



lemma firstRef_ok:
  "firstRef data w = Inr ((h, f, os, True), d, w') \<Longrightarrow>
     w' = w \<and> f \<noteq> [] \<and> (\<forall>w2. firstRef data w2 = Inr ((h, f, os, True), d, w2))"
proof (induction data w rule: firstRef.induct)
  case (1 data w)
  show ?case
  proof (cases "readRef data w")
    case (Inl p)
    with "1.prems" show ?thesis by (simp add: firstRef.simps [of data w])
  next
    case (Inr x)
    obtain hh first opts ok data' w1 where x: "x = ((hh, first, opts, ok), data', w1)"
      by (cases x) auto
    show ?thesis
    proof (cases "first = [] \<and> ok")
      case True
      then have ok: "ok = True" and fe: "first = []" by simp_all
      from Inr x ok fe have rr: "readRef data w = Inr ((hh, [], opts, True), data', w1)" by simp
      have w1: "w1 = w" using rr by (rule readRef_ok_same)
      have "firstRef data' w1 = Inr ((h, f, os, True), d, w')"
        using "1.prems" rr by (simp add: firstRef.simps [of data w])
      from "1.IH" [OF Inr x [symmetric] refl refl refl refl True this]
      have w': "w' = w1" and f: "f \<noteq> []"
        and all: "\<forall>w2. firstRef data' w2 = Inr ((h, f, os, True), d, w2)" by blast+
      have "firstRef data w2 = Inr ((h, f, os, True), d, w2)" for w2
      proof -
        have "readRef data w2 = Inr ((hh, [], opts, True), data', w2)"
          using rr by (rule readRef_ok_any)
        then show ?thesis using all by (simp add: firstRef.simps [of data w2])
      qed
      with w' w1 f show ?thesis by blast
    next
      case False
      with "1.prems" Inr x have eq: "hh = h" "first = f" "opts = os" "ok = True" "data' = d" "w1 = w'"
        by (auto simp: firstRef.simps [of data w])
      with False have f: "f \<noteq> []" by simp
      from Inr x eq have rr: "readRef data w = Inr ((h, f, os, True), d, w')" by simp
      have w': "w' = w" using rr by (rule readRef_ok_same)
      have "firstRef data w2 = Inr ((h, f, os, True), d, w2)" for w2
      proof -
        have "readRef data w2 = Inr ((h, f, os, True), d, w2)"
          using rr by (rule readRef_ok_any)
        then show ?thesis using f by (simp add: firstRef.simps [of data w2])
      qed
      with w' f show ?thesis by blast
    qed
  qed
qed

lemma firstRef_plain:
  "firstRef data w = Inr ((h, f, os, True), d, w') \<Longrightarrow>
     plain h \<and> plain f \<and> (\<forall>c \<in> set os. SP \<notin> set c \<and> NUL \<notin> set c)"
proof (induction data w rule: firstRef.induct)
  case (1 data w)
  show ?case
  proof (cases "readRef data w")
    case (Inl p)
    with "1.prems" show ?thesis by (simp add: firstRef.simps [of data w])
  next
    case (Inr x)
    obtain hh first opts ok data' w1 where x: "x = ((hh, first, opts, ok), data', w1)"
      by (cases x) auto
    show ?thesis
    proof (cases "first = [] \<and> ok")
      case True
      have "firstRef data' w1 = Inr ((h, f, os, True), d, w')"
        using "1.prems" Inr x True by (simp add: firstRef.simps [of data w])
      from "1.IH" [OF Inr x [symmetric] refl refl refl refl True this] show ?thesis .
    next
      case False
      with "1.prems" Inr x have "readRef data w = Inr ((h, f, os, True), d, w')"
        by (auto simp: firstRef.simps [of data w])
      then show ?thesis by (rule readRef_plain)
    qed
  qed
qed

lemma firstRef_failed:
  "(firstRef data w = Inl p \<longrightarrow> p = SliceBoundsOutOfRange) \<and>
   (firstRef data w = Inr ((h, f, os, False), d, w') \<longrightarrow> (\<exists>line. w' = invalidReference line w))"
proof (induction data w rule: firstRef.induct)
  case (1 data w)
  show ?case
  proof (cases "readRef data w")
    case (Inl q)
    then have "readPkt data = Inl q" by (simp add: readRef_panic)
    then have "q = SliceBoundsOutOfRange" by (rule readPkt_panic)
    with Inl show ?thesis by (simp add: firstRef.simps [of data w])
  next
    case (Inr x)
    obtain hh first opts ok data' w1 where x: "x = ((hh, first, opts, ok), data', w1)"
      by (cases x) auto
    show ?thesis
    proof (cases "first = [] \<and> ok")
      case True
      then have "readRef data w = Inr ((hh, first, opts, True), data', w1)" using Inr x by simp
      then have w1: "w1 = w" by (rule readRef_ok_same)
      have "firstRef data w = firstRef data' w1"
        using Inr x True by (simp add: firstRef.simps [of data w])
      with "1.IH" [OF Inr x [symmetric] refl refl refl refl True] w1 show ?thesis by simp
    next
      case False
      then have eq: "firstRef data w = Inr ((hh, first, opts, ok), data', w1)"
        using Inr x by (auto simp: firstRef.simps [of data w])
      show ?thesis
      proof (cases ok)
        case True
        with eq show ?thesis by simp
      next
        case ok: False
        with Inr x have "readRef data w = Inr ((hh, first, opts, False), data', w1)" by simp
        then have "\<exists>line. w1 = invalidReference line w" by (rule readRef_not_ok)
        with eq ok show ?thesis by auto
      qed
    qed
  qed
qed



lemma readOthers_entries:
  "readEntries data = Some es \<Longrightarrow>
     \<exists>d. readOthers data w others order = Inr (True, collect others es, order @ map snd es, d, w)"
proof (induction data arbitrary: es others order rule: readEntries.induct)
  case (1 data)
  show ?case
  proof (cases "readRef data w0")
    case (Inl p)
    with "1.prems" show ?thesis by (simp add: readEntries.simps [of data])
  next
    case (Inr x)
    obtain refHash other opts ok data' w1 where x: "x = ((refHash, other, opts, ok), data', w1)"
      by (cases x) auto
    have unf: "readEntries data =
        (if \<not> ok then None
          else if refHash = [] then Some []
          else (case readEntries data' of
                  None \<Rightarrow> None
                | Some es \<Rightarrow> Some ((refHash, other) # es)))"
      by (subst readEntries.simps) (simp add: Inr x)
    from "1.prems" unf have ok: "ok = True" by (cases ok) simp_all
    with Inr x have r0: "readRef data w0 = Inr ((refHash, other, opts, True), data', w1)" by simp
    have rw: "readRef data w = Inr ((refHash, other, opts, True), data', w)"
      using r0 by (rule readRef_ok_any)
    have unf2: "readOthers data w others order =
       (if refHash = [] then Inr (True, others, order, data', w)
          else readOthers data' w (others(other \<mapsto> refHash)) (order @ [other]))"
      by (subst readOthers.simps) (simp add: rw)
    show ?thesis
    proof (cases "refHash = []")
      case True
      with "1.prems" unf ok have "es = []" by simp
      with True unf2 show ?thesis by simp
    next
      case False
      with "1.prems" unf ok obtain es' where es': "readEntries data' = Some es'"
        and es: "es = (refHash, other) # es'"
        by (auto split: option.splits)
      have nok: "\<not> \<not> ok" using ok by simp
      from "1.IH" [OF Inr x [symmetric] refl refl refl refl nok False es']
      obtain d where "readOthers data' w (others(other \<mapsto> refHash)) (order @ [other]) =
          Inr (True, collect (others(other \<mapsto> refHash)) es', (order @ [other]) @ map snd es', d, w)"
        by blast
      with False unf2 es show ?thesis by simp
    qed
  qed
qed

lemma readOthers_failed:
  "(readOthers data w others order = Inl p \<longrightarrow> p = SliceBoundsOutOfRange) \<and>
   (readOthers data w others order = Inr (False, m, ord, d, w') \<longrightarrow>
      (\<exists>line. w' = invalidReference line w)) \<and>
   (readOthers data w others order = Inr (True, m, ord, d, w') \<longrightarrow> readEntries data \<noteq> None)"
proof (induction data w others order rule: readOthers.induct)
  case (1 data w others order)
  show ?case
  proof (cases "readRef data w")
    case (Inl q)
    then have "readPkt data = Inl q" by (simp add: readRef_panic)
    then have "q = SliceBoundsOutOfRange" by (rule readPkt_panic)
    with Inl show ?thesis by (simp add: readOthers.simps [of data w])
  next
    case (Inr x)
    obtain refHash other opts ok data' w1 where x: "x = ((refHash, other, opts, ok), data', w1)"
      by (cases x) auto
    show ?thesis
    proof (cases ok)
      case False
      with Inr x have "readRef data w = Inr ((refHash, other, opts, False), data', w1)" by simp
      then have "\<exists>line. w1 = invalidReference line w" by (rule readRef_not_ok)
      moreover have "readOthers data w others order = Inr (False, others, order, data', w1)"
        using Inr x False by (simp add: readOthers.simps [of data w])
      ultimately show ?thesis by auto
    next
      case True
      with Inr x have rr: "readRef data w = Inr ((refHash, other, opts, True), data', w1)" by simp
      then have w1: "w1 = w" by (rule readRef_ok_same)
      have r0: "readRef data w0 = Inr ((refHash, other, opts, True), data', w0)"
        using rr by (rule readRef_ok_any)
      show ?thesis
      proof (cases "refHash = []")
        case e: True
        have "readOthers data w others order = Inr (True, others, order, data', w1)"
          using rr e by (simp add: readOthers.simps [of data w])
        moreover have "readEntries data = Some []"
          using r0 e by (simp add: readEntries.simps [of data])
        ultimately show ?thesis by simp
      next
        case ne: False
        have nok: "\<not> \<not> ok" using True by simp
        have "readOthers data w others order =
                readOthers data' w1 (others(other \<mapsto> refHash)) (order @ [other])"
          using rr ne by (simp add: readOthers.simps [of data w])
        moreover have "readEntries data' \<noteq> None \<Longrightarrow> readEntries data \<noteq> None"
          using r0 ne by (auto simp: readEntries.simps [of data])
        moreover have
          "(readOthers data' w1 (others(other \<mapsto> refHash)) (order @ [other]) = Inl p \<longrightarrow>
              p = SliceBoundsOutOfRange) \<and>
           (readOthers data' w1 (others(other \<mapsto> refHash)) (order @ [other]) =
              Inr (False, m, ord, d, w') \<longrightarrow> (\<exists>line. w' = invalidReference line w1)) \<and>
           (readOthers data' w1 (others(other \<mapsto> refHash)) (order @ [other]) =
              Inr (True, m, ord, d, w') \<longrightarrow> readEntries data' \<noteq> None)"
          using "1.IH" [OF Inr x [symmetric] refl refl refl refl nok ne]
          by (simp add: fun_upd_def)
        ultimately show ?thesis using w1 by auto
      qed
    qed
  qed
qed

lemma entries_hash_nonempty:
  "readEntries data = Some es \<Longrightarrow> \<forall>(h, n) \<in> set es. h \<noteq> []"
proof (induction data arbitrary: es rule: readEntries.induct)
  case (1 data)
  show ?case
  proof (cases "readRef data w0")
    case (Inl p)
    with "1.prems" show ?thesis by (simp add: readEntries.simps [of data])
  next
    case (Inr x)
    obtain refHash other opts ok data' w1 where x: "x = ((refHash, other, opts, ok), data', w1)"
      by (cases x) auto
    have unf: "readEntries data =
        (if \<not> ok then None
          else if refHash = [] then Some []
          else (case readEntries data' of
                  None \<Rightarrow> None
                | Some es \<Rightarrow> Some ((refHash, other) # es)))"
      by (subst readEntries.simps) (simp add: Inr x)
    from "1.prems" unf have ok: "ok = True" by (cases ok) simp_all
    show ?thesis
    proof (cases "refHash = []")
      case True
      with "1.prems" unf ok have "es = []" by simp
      then show ?thesis by simp
    next
      case False
      with "1.prems" unf ok obtain es' where es': "readEntries data' = Some es'"
        and es: "es = (refHash, other) # es'"
        by (auto split: option.splits)
      have nok: "\<not> \<not> ok" using ok by simp
      from "1.IH" [OF Inr x [symmetric] refl refl refl refl nok False es'] False es
      show ?thesis by simp
    qed
  qed
qed

lemma entries_plain:
  "readEntries data = Some es \<Longrightarrow> \<forall>(h, n) \<in> set es. plain h \<and> plain n"
proof (induction data arbitrary: es rule: readEntries.induct)
  case (1 data)
  show ?case
  proof (cases "readRef data w0")
    case (Inl p)
    with "1.prems" show ?thesis by (simp add: readEntries.simps [of data])
  next
    case (Inr x)
    obtain refHash other opts ok data' w1 where x: "x = ((refHash, other, opts, ok), data', w1)"
      by (cases x) auto
    have unf: "readEntries data =
        (if \<not> ok then None
          else if refHash = [] then Some []
          else (case readEntries data' of
                  None \<Rightarrow> None
                | Some es \<Rightarrow> Some ((refHash, other) # es)))"
      by (subst readEntries.simps) (simp add: Inr x)
    from "1.prems" unf have ok: "ok = True" by (cases ok) simp_all
    with Inr x have "readRef data w0 = Inr ((refHash, other, opts, True), data', w1)" by simp
    then have pl: "plain refHash \<and> plain other" using readRef_plain by blast
    show ?thesis
    proof (cases "refHash = []")
      case True
      with "1.prems" unf ok have "es = []" by simp
      then show ?thesis by simp
    next
      case False
      with "1.prems" unf ok obtain es' where es': "readEntries data' = Some es'"
        and es: "es = (refHash, other) # es'"
        by (auto split: option.splits)
      have nok: "\<not> \<not> ok" using ok by simp
      from "1.IH" [OF Inr x [symmetric] refl refl refl refl nok False es'] pl es
      show ?thesis by simp
    qed
  qed
qed

lemma collect_append: "collect m (es @ [(h, n)]) = (collect m es)(n \<mapsto> h)"
  by (induction es arbitrary: m) auto

lemma dom_collect: "dom (collect m es) = dom m \<union> snd ` set es"
proof (induction es arbitrary: m)
  case Nil
  show ?case by simp
next
  case (Cons e es)
  obtain h n where e: "e = (h, n)" by (cases e)
  have "dom (collect m (e # es)) = dom (m(n \<mapsto> h)) \<union> snd ` set es"
    unfolding e collect.simps by (rule Cons.IH)
  also have "\<dots> = dom m \<union> snd ` set (e # es)" by (simp add: e)
  finally show ?case .
qed

lemma collect_notin: "n \<notin> snd ` set es \<Longrightarrow> collect m es n = m n"
  by (induction es arbitrary: m) auto

lemma collect_distinct:
  "distinct (map snd es) \<Longrightarrow> (h, n) \<in> set es \<Longrightarrow> collect m es n = Some h"
  by (induction es arbitrary: m) (auto simp: collect_notin rev_image_eqI)

lemma collect_in:
  "n \<in> snd ` set es \<Longrightarrow> \<exists>h. collect m es n = Some h \<and> (h, n) \<in> set es"
proof (induction es arbitrary: m rule: rev_induct)
  case Nil
  then show ?case by simp
next
  case (snoc e es)
  obtain h' n' where e: "e = (h', n')" by (cases e)
  show ?case
  proof (cases "n = n'")
    case True
    then show ?thesis by (auto simp: e collect_append)
  next
    case False
    with snoc.prems e have "n \<in> snd ` set es" by auto
    from snoc.IH [OF this, of m] False show ?thesis by (auto simp: e collect_append)
  qed
qed

lemma emitted_names: "map snd (emitted es) = map snd es"
  by (simp add: emitted_def comp_def case_prod_beta)

lemma emitted_distinct: "distinct (map snd es) \<Longrightarrow> emitted es = es"
  unfolding emitted_def lastHash_def
  by (rule map_idI) (auto simp: collect_distinct)

lemma lastHash_in: "n \<in> snd ` set es \<Longrightarrow> (lastHash es n, n) \<in> set es"
  using collect_in [of n es Map.empty] by (auto simp: lastHash_def)

lemma decodeAdvert_plain:
  assumes "decodeAdvert data = Some ((headHash, first, options), es)"
  shows "plain headHash \<and> plain first \<and> first \<noteq> [] \<and> (\<forall>c \<in> set options. NUL \<notin> set c) \<and>
         (\<forall>(h, n) \<in> set es. plain h \<and> plain n \<and> h \<noteq> [])"
proof -
  from assms obtain d1 where r1: "readPkt data = Inr (serviceLine, True, d1)"
    by (auto simp: decodeAdvert_def split: sum.splits if_splits prod.splits)
  from assms r1 obtain d2 w2 where f0: "firstRef d1 w0 = Inr ((headHash, first, options, True), d2, w2)"
    and e: "readEntries d2 = Some es"
    by (auto simp: decodeAdvert_def split: sum.splits if_splits prod.splits option.splits)
  from firstRef_ok [OF f0] have "first \<noteq> []" by blast
  moreover from firstRef_plain [OF f0] have "plain headHash" "plain first"
    "\<forall>c \<in> set options. NUL \<notin> set c" by blast+
  moreover from entries_plain [OF e] entries_hash_nonempty [OF e]
  have "\<forall>(h, n) \<in> set es. plain h \<and> plain n \<and> h \<noteq> []" by fastforce
  ultimately show ?thesis by blast
qed

subsection \<open>Writing the advertisement\<close>

lemma emitPkt_sent:
  "status w = Some c \<Longrightarrow> emitPkt m w = w\<lparr>body := body w @ pktline m\<rparr>"
  by (simp add: emitPkt_def Write_def WriteHeader_def)

lemma emitPkt_status: "status w = Some c \<Longrightarrow> status (emitPkt m w) = Some c"
  by (simp add: emitPkt_sent)

text \<open>The loop of lines 439-446 when every name of \<open>order\<close> is held by \<open>others\<close>.\<close>

lemma emitOthers_all:
  "status w = Some c \<Longrightarrow> set order \<subseteq> dom others \<Longrightarrow>
     emitOthers order others w =
       (None, w\<lparr>body := body w @ concat (map (\<lambda>n. pktline (the (others n) @ '' '' @ n)) order)\<rparr>)"
proof (induction order arbitrary: w)
  case Nil
  show ?case by simp
next
  case (Cons n order)
  from Cons.prems obtain h where h: "others n = Some h" by auto
  have s: "status (emitPkt (h @ '' '' @ n) w) = Some c" using Cons.prems(1) by (rule emitPkt_status)
  have "set order \<subseteq> dom others" using Cons.prems by simp
  from Cons.IH [OF s this] show ?case using h Cons.prems(1) by (simp add: emitPkt_sent)
qed

text \<open>The same loop when \<open>others\<close> does not hold one of the names.\<close>

lemma emitOthers_missing:
  "status w = Some c \<Longrightarrow> set pre \<subseteq> dom others \<Longrightarrow> others n = None \<Longrightarrow>
     emitOthers (pre @ n # post) others w =
       (Some (PanicMsg (''invalid other reference: '' @ n)),
        w\<lparr>body := body w @ concat (map (\<lambda>n. pktline (the (others n) @ '' '' @ n)) pre)\<rparr>)"
proof (induction pre arbitrary: w)
  case Nil
  then show ?case by simp
next
  case (Cons x pre)
  from Cons.prems obtain h where h: "others x = Some h" by auto
  have s: "status (emitPkt (h @ '' '' @ x) w) = Some c" using Cons.prems(1) by (rule emitPkt_status)
  have "set pre \<subseteq> dom others" using Cons.prems by simp
  from Cons.IH [OF s this Cons.prems(3)] show ?case using h Cons.prems(1) by (simp add: emitPkt_sent)
qed

text \<open>
  The handler on an advertisement that decodes: it goes on to \<open>rewriteRefs\<close> with
  the first reference, its options rewritten, and the other references collected.
\<close>

lemma advertise_decoded:
  assumes "decodeAdvert data = Some ((headHash, first, options), es)"
  shows "advertise data w =
           rewriteRefs headHash first (rewriteOptions options) (collect Map.empty es) (map snd es) w"
proof -
  from assms obtain d1 where r1: "readPkt data = Inr (serviceLine, True, d1)"
    by (auto simp: decodeAdvert_def split: sum.splits if_splits prod.splits)
  from assms r1 obtain d2 w2 where f0: "firstRef d1 w0 = Inr ((headHash, first, options, True), d2, w2)"
    and e: "readEntries d2 = Some es"
    by (auto simp: decodeAdvert_def split: sum.splits if_splits prod.splits option.splits)
  from firstRef_ok [OF f0] have f: "firstRef d1 w = Inr ((headHash, first, options, True), d2, w)"
    by blast
  from readOthers_entries [OF e, of w Map.empty "[]"] obtain d3 where
    o: "readOthers d2 w Map.empty [] = Inr (True, collect Map.empty es, map snd es, d3, w)"
    by auto
  show ?thesis by (simp add: advertise_def r1 f o)
qed

text \<open>
  The handler on an upstream body that does not decode: it panics in the slice
  expression of \<open>readPkt\<close> with nothing written, or it answers with status 500 and a
  diagnostic. With \<open>advertise_decoded\<close> this covers every body.
\<close>

lemma advertise_undecoded:
  assumes "decodeAdvert data = None"
  shows "advertise data w0 = (Panicked SliceBoundsOutOfRange, w0) \<or>
         (\<exists>msg. advertise data w0 =
            (Returned, \<lparr>status = Some 500, headers = [], body = msg\<rparr>))"
proof (cases "readPkt data")
  case (Inl p)
  then have "p = SliceBoundsOutOfRange" by (rule readPkt_panic)
  with Inl show ?thesis by (simp add: advertise_def)
next
  case (Inr x)
  obtain header ok d1 where x: "x = (header, ok, d1)" by (cases x)
  have inv: "invalidReference line w0 =
      \<lparr>status = Some 500, headers = [], body = ''invalid reference: '' @ line\<rparr>" for line
    by (simp add: invalidReference_def Write_def WriteHeader_def w0_def)
  show ?thesis
  proof (cases "\<not> ok \<or> header \<noteq> serviceLine")
    case True
    then show ?thesis using Inr x
      by (auto simp: advertise_def Write_def WriteHeader_def w0_def)
  next
    case hdr: False
    show ?thesis
    proof (cases "firstRef d1 w0")
      case (Inl p)
      then have "p = SliceBoundsOutOfRange" using firstRef_failed by blast
      with Inl Inr x hdr show ?thesis by (simp add: advertise_def)
    next
      case f: (Inr y)
      obtain hh first opts ok2 d2 w2 where y: "y = ((hh, first, opts, ok2), d2, w2)"
        by (cases y) auto
      show ?thesis
      proof (cases ok2)
        case False
        with f y have "firstRef d1 w0 = Inr ((hh, first, opts, False), d2, w2)" by simp
        then obtain line where "w2 = invalidReference line w0" using firstRef_failed by blast
        with f y False Inr x hdr show ?thesis by (simp add: advertise_def inv)
      next
        case True
        with f y have ff: "firstRef d1 w0 = Inr ((hh, first, opts, True), d2, w2)" by simp
        then have w2: "w2 = w0" using firstRef_ok by blast
        from assms Inr x hdr ff have none: "readEntries d2 = None"
          by (auto simp: decodeAdvert_def split: option.splits)
        show ?thesis
        proof (cases "readOthers d2 w0 Map.empty []")
          case (Inl p)
          then have "p = SliceBoundsOutOfRange" using readOthers_failed by blast
          with Inl ff w2 Inr x hdr show ?thesis by (simp add: advertise_def)
        next
          case o: (Inr z)
          obtain ok3 m ord d3 w3 where z: "z = (ok3, m, ord, d3, w3)" by (cases z) auto
          show ?thesis
          proof (cases ok3)
            case True
            with o z have "readOthers d2 w0 Map.empty [] = Inr (True, m, ord, d3, w3)" by simp
            then have "readEntries d2 \<noteq> None" using readOthers_failed by blast
            with none show ?thesis by simp
          next
            case False
            with o z have oo: "readOthers d2 w0 Map.empty [] = Inr (False, m, ord, d3, w3)" by simp
            then obtain line where "w3 = invalidReference line w0" using readOthers_failed by blast
            with oo ff w2 Inr x hdr show ?thesis by (simp add: advertise_def inv)
          qed
        qed
      qed
    qed
  qed
qed


lemma rewriteRefs_HEAD:
  assumes "others target = Some targetHash" and "set order \<subseteq> dom others"
  shows "rewriteRefs headHash ''HEAD'' options others order w0 =
           (Returned, \<lparr>status = Some 200, headers = advertHeaders,
                        body = encodeAdvert (targetHash, ''HEAD'', options)
                                 (map (\<lambda>n. (the (others n), n)) order)\<rparr>)"
proof -
  let ?w = "emitPkt (targetHash @ '' '' @ ''HEAD'' @ [NUL] @ Join options '' '')
             (emitPkt [] (emitPkt serviceLine
               (HeaderSet ''Cache-Control'' ''no-cache''
                 (HeaderSet ''Content-Type'' ''application/x-git-upload-pack-advertisement'' w0))))"
  have w: "?w = \<lparr>status = Some 200, headers = advertHeaders,
                  body = pktline serviceLine @ pktline [] @
                         pktline (targetHash @ '' '' @ ''HEAD'' @ [NUL] @ Join options '' '')\<rparr>"
    by (simp add: emitPkt_def Write_def WriteHeader_def HeaderSet_def w0_def advertHeaders_def)
  then have s: "status ?w = Some 200" by simp
  have "rewriteRefs headHash ''HEAD'' options others order w0 =
          (case emitOthers order others ?w of
             (Some p, w) \<Rightarrow> (Panicked p, w)
           | (None, w) \<Rightarrow> (Returned, emitPkt [] w))"
    using assms(1) by (simp add: rewriteRefs_def Let_def)
  also have "\<dots> = (Returned, emitPkt []
      (?w\<lparr>body := body ?w @ concat (map (\<lambda>n. pktline (the (others n) @ '' '' @ n)) order)\<rparr>))"
    by (simp only: emitOthers_all [OF s assms(2)] prod.case option.case)
  also have "\<dots> = (Returned, \<lparr>status = Some 200, headers = advertHeaders,
                        body = encodeAdvert (targetHash, ''HEAD'', options)
                                 (map (\<lambda>n. (the (others n), n)) order)\<rparr>)"
    unfolding w by (simp add: emitPkt_def Write_def WriteHeader_def encodeAdvert_def comp_def)
  finally show ?thesis .
qed

lemma rewriteRefs_branch:
  assumes "first \<noteq> ''HEAD''" and "others target = Some targetHash"
    and "set order \<subseteq> dom others" and "target \<in> set order"
  shows "rewriteRefs headHash first options others order w0 =
           (Panicked (PanicMsg ''invalid other reference: refs/heads/go''),
            \<lparr>status = Some 200, headers = advertHeaders,
             body = pktline serviceLine @ pktline [] @
                    pktline (targetHash @ '' '' @ target @ [NUL] @ Join options '' '') @
                    concat (map (\<lambda>n. pktline (the (others n) @ '' '' @ n))
                              (takeWhile (\<lambda>n. n \<noteq> target) (sort (order @ [target]))))\<rparr>)"
proof -
  let ?xs = "sort (order @ [target])"
  let ?P = "\<lambda>n. n \<noteq> target"
  let ?pre = "takeWhile ?P ?xs"
  let ?post = "tl (dropWhile ?P ?xs)"
  let ?others = "(others(target \<mapsto> targetHash))(target := None)"
  let ?w = "emitPkt (targetHash @ '' '' @ target @ [NUL] @ Join options '' '')
             (emitPkt [] (emitPkt serviceLine
               (HeaderSet ''Cache-Control'' ''no-cache''
                 (HeaderSet ''Content-Type'' ''application/x-git-upload-pack-advertisement'' w0))))"
  have w: "?w = \<lparr>status = Some 200, headers = advertHeaders,
                  body = pktline serviceLine @ pktline [] @
                         pktline (targetHash @ '' '' @ target @ [NUL] @ Join options '' '')\<rparr>"
    by (simp add: emitPkt_def Write_def WriteHeader_def HeaderSet_def w0_def advertHeaders_def)
  then have s: "status ?w = Some 200" by simp
  have "target \<in> set ?xs" by simp
  then have dw: "dropWhile ?P ?xs \<noteq> []" by (simp add: dropWhile_eq_Nil_conv)
  then have "hd (dropWhile ?P ?xs) = target" using hd_dropWhile [of ?P ?xs] by simp
  with dw have "dropWhile ?P ?xs = target # ?post" by (cases "dropWhile ?P ?xs") auto
  then have split: "?xs = ?pre @ target # ?post" using takeWhile_dropWhile_id [of ?P ?xs] by simp
  have pre: "set ?pre \<subseteq> dom ?others"
  proof
    fix n assume n: "n \<in> set ?pre"
    then have "n \<noteq> target" by (auto dest: set_takeWhileD)
    moreover from n have "n \<in> set ?xs" by (auto dest: set_takeWhileD)
    ultimately show "n \<in> dom ?others" using assms(3) by auto
  qed
  have none: "?others target = None" by simp
  have same: "map (\<lambda>n. pktline (the (?others n) @ '' '' @ n)) ?pre =
              map (\<lambda>n. pktline (the (others n) @ '' '' @ n)) ?pre"
    by (rule map_cong) (auto dest: set_takeWhileD)
  have "rewriteRefs headHash first options others order w0 =
          (case emitOthers ?xs ?others ?w of
             (Some p, w) \<Rightarrow> (Panicked p, w)
           | (None, w) \<Rightarrow> (Returned, emitPkt [] w))"
    using assms(1,2) by (simp add: rewriteRefs_def Let_def)
  also have "emitOthers ?xs ?others ?w = emitOthers (?pre @ target # ?post) ?others ?w"
    using split by simp
  also have "\<dots> = (Some (PanicMsg (''invalid other reference: '' @ target)),
        ?w\<lparr>body := body ?w @ concat (map (\<lambda>n. pktline (the (?others n) @ '' '' @ n)) ?pre)\<rparr>)"
    using s pre none by (rule emitOthers_missing)
  finally show ?thesis unfolding same w by (simp add: target_def)
qed

lemma rewriteOptions_no_NUL:
  "\<forall>c \<in> set cs. NUL \<notin> set c \<Longrightarrow> \<forall>c \<in> set (rewriteOptions cs). NUL \<notin> set c"
  by (auto simp: rewriteOptions_def target_def)

subsection \<open>Decoding an encoded advertisement\<close>

lemma readEntries_encoded:
  assumes "\<forall>(h, n) \<in> set es. plain h \<and> plain n \<and> h \<noteq> [] \<and> length h + length n + 1 < 65531"
  shows "readEntries (concat (map (\<lambda>(h, n). pktline (h @ '' '' @ n)) es) @ pktline [] @ rest) = Some es"
  using assms
proof (induction es)
  case Nil
  show ?case by (subst readEntries.simps) (simp add: readRef_blank)
next
  case (Cons e es)
  obtain h n where e: "e = (h, n)" by (cases e)
  let ?rest = "concat (map (\<lambda>(h, n). pktline (h @ '' '' @ n)) es) @ pktline [] @ rest"
  from Cons.prems e have hn: "plain h" "plain n" "h \<noteq> []" "length h + length n + 1 < 65531" by auto
  have "readRef (pktline (h @ '' '' @ n) @ ?rest) w0 = Inr ((h, n, [], True), ?rest, w0)"
    using hn by (intro readRef_pktline parseRef_entry) simp_all
  moreover have "readEntries ?rest = Some es" using Cons by simp
  ultimately show ?case using hn(3)
    by (subst readEntries.simps) (simp add: e)
qed

lemma decode_encode:
  assumes "plain h" and "plain f" and "f \<noteq> []" and "NUL \<notin> set (Join caps '' '')"
    and "length h + length f + length (Join caps '' '') + 2 < 65531"
    and "\<forall>(h, n) \<in> set es. plain h \<and> plain n \<and> h \<noteq> [] \<and> length h + length n + 1 < 65531"
  shows "decodeAdvert (encodeAdvert (h, f, caps) es) = Some ((h, f, Split (Join caps '' '') SP), es)"
proof -
  let ?line = "h @ '' '' @ f @ [NUL] @ Join caps '' ''"
  let ?es = "concat (map (\<lambda>(h, n). pktline (h @ '' '' @ n)) es) @ pktline [] @ []"
  have enc: "encodeAdvert (h, f, caps) es = pktline serviceLine @ pktline [] @ pktline ?line @ ?es"
    by (simp add: encodeAdvert_def)
  have 1: "readPkt (pktline serviceLine @ pktline [] @ pktline ?line @ ?es) =
             Inr (serviceLine, True, pktline [] @ pktline ?line @ ?es)"
    by (rule readPkt_pktline) (simp add: serviceLine_def)
  have 2: "readRef (pktline ?line @ ?es) w0 = Inr ((h, f, Split (Join caps '' '') SP, True), ?es, w0)"
    using assms(1-5) by (intro readRef_pktline parseRef_first) simp_all
  have "firstRef (pktline [] @ pktline ?line @ ?es) w0 = firstRef (pktline ?line @ ?es) w0"
    by (subst firstRef.simps) (simp only: readRef_blank, simp)
  also have "\<dots> = Inr ((h, f, Split (Join caps '' '') SP, True), ?es, w0)"
    using assms(3) by (subst firstRef.simps) (simp only: 2, simp)
  finally have 3: "firstRef (pktline [] @ pktline ?line @ ?es) w0 =
      Inr ((h, f, Split (Join caps '' '') SP, True), ?es, w0)" .
  have 4: "readEntries ?es = Some es" using assms(6) by (rule readEntries_encoded)
  show ?thesis unfolding enc decodeAdvert_def
    by (simp only: 1 3 4 sum.case prod.case option.case simp_thms if_False if_True)
qed

subsection \<open>The rewritten advertisement, read back\<close>

lemma collect_last:
  "n \<in> snd ` set es \<Longrightarrow> collect m es n = Some (fst (last (filter (\<lambda>e. snd e = n) es)))"
proof (induction es rule: rev_induct)
  case Nil
  then show ?case by simp
next
  case (snoc e es)
  obtain h' n' where e: "e = (h', n')" by (cases e)
  show ?case
  proof (cases "n = n'")
    case True
    then show ?thesis by (simp add: e collect_append)
  next
    case False
    with snoc.prems e have "n \<in> snd ` set es" by auto
    from snoc.IH [OF this] False show ?thesis by (simp add: e collect_append)
  qed
qed

lemma lastHash_last:
  "n \<in> snd ` set es \<Longrightarrow> lastHash es n = fst (last (filter (\<lambda>e. snd e = n) es))"
  by (simp add: lastHash_def collect_last)

lemma decodeAdvert_options:
  assumes "decodeAdvert data = Some ((headHash, first, options), es)"
  shows "\<forall>c \<in> set options. SP \<notin> set c \<and> NUL \<notin> set c"
proof -
  from assms obtain d1 where r1: "readPkt data = Inr (serviceLine, True, d1)"
    by (auto simp: decodeAdvert_def split: sum.splits if_splits prod.splits)
  from assms r1 obtain d2 w2 where f0: "firstRef d1 w0 = Inr ((headHash, first, options, True), d2, w2)"
    by (auto simp: decodeAdvert_def split: sum.splits if_splits prod.splits option.splits)
  from firstRef_plain [OF f0] show ?thesis by blast
qed

lemma decodeAdvert_firstEntry:
  assumes "decodeAdvert data = Some ((headHash, first, options), es)"
  shows "firstEntry data = Some (headHash, first, options)"
proof -
  from assms obtain d1 where r1: "readPkt data = Inr (serviceLine, True, d1)"
    by (auto simp: decodeAdvert_def split: sum.splits if_splits prod.splits)
  from assms r1 obtain d2 w2 where f0: "firstRef d1 w0 = Inr ((headHash, first, options, True), d2, w2)"
    by (auto simp: decodeAdvert_def split: sum.splits if_splits prod.splits option.splits)
  show ?thesis by (simp add: firstEntry_def r1 f0)
qed

lemma rewriteOptions_no_SP:
  "\<forall>c \<in> set cs. SP \<notin> set c \<Longrightarrow> \<forall>c \<in> set (rewriteOptions cs). SP \<notin> set c"
  by (auto simp: rewriteOptions_def target_def)

lemma rewriteOptions_nth:
  "length (rewriteOptions options) = length options \<and>
   (\<forall>i < length options.
      rewriteOptions options ! i =
        (if \<exists>rest. options ! i = ''symref='' @ rest then ''symref=refs/heads/go''
         else options ! i))"
  by (simp add: rewriteOptions_def target_def HasPrefix_iff)

lemma rewriteOptions_Nil: "rewriteOptions cs = [] \<longleftrightarrow> cs = []"
  by (simp add: rewriteOptions_def)

lemma firstEntry_encoded:
  assumes "plain h" and "plain f" and "f \<noteq> []" and "NUL \<notin> set c"
    and "length h + length f + length c + 2 < 65531"
  shows "firstEntry (pktline serviceLine @ pktline [] @ pktline (h @ '' '' @ f @ [NUL] @ c) @ rest) =
           Some (h, f, Split c SP)"
proof -
  let ?line = "h @ '' '' @ f @ [NUL] @ c"
  have 1: "readPkt (pktline serviceLine @ pktline [] @ pktline ?line @ rest) =
             Inr (serviceLine, True, pktline [] @ pktline ?line @ rest)"
    by (rule readPkt_pktline) (simp add: serviceLine_def)
  have 2: "readRef (pktline ?line @ rest) w0 = Inr ((h, f, Split c SP, True), rest, w0)"
    using assms by (intro readRef_pktline parseRef_first) simp_all
  have "firstRef (pktline [] @ pktline ?line @ rest) w0 = firstRef (pktline ?line @ rest) w0"
    by (subst firstRef.simps) (simp only: readRef_blank, simp)
  also have "\<dots> = Inr ((h, f, Split c SP, True), rest, w0)"
    using assms(3) by (subst firstRef.simps) (simp only: 2, simp)
  finally have 3: "firstRef (pktline [] @ pktline ?line @ rest) w0 =
      Inr ((h, f, Split c SP, True), rest, w0)" .
  show ?thesis unfolding firstEntry_def
    by (simp only: 1 3 sum.case prod.case option.case simp_thms if_False if_True)
qed

text \<open>The handler when the first reference is \<open>HEAD\<close> and the target is among the others.\<close>

lemma infoRefs_HEAD_body:
  assumes "exactQuery q"
    and "decodeAdvert data = Some ((headHash, ''HEAD'', options), es)"
    and "target \<in> snd ` set es"
  shows "infoRefs q (Upstream 200 data) =
           \<lparr>fetched = True,
            resp = \<lparr>status = Some 200, headers = advertHeaders,
                    body = encodeAdvert (lastHash es target, ''HEAD'', rewriteOptions options)
                             (emitted es)\<rparr>,
            outcome = Returned\<rparr>"
proof -
  let ?others = "collect Map.empty es"
  have d: "dom ?others = snd ` set es" by (simp add: dom_collect)
  with assms(3) obtain th where th: "?others target = Some th" by blast
  then have lh: "lastHash es target = th" by (simp add: lastHash_def)
  have sub: "set (map snd es) \<subseteq> dom ?others" using d by simp
  have em: "map (\<lambda>n. (the (?others n), n)) (map snd es) = emitted es"
    by (simp add: emitted_def lastHash_def comp_def case_prod_beta)
  have "advertise data w0 =
          rewriteRefs headHash ''HEAD'' (rewriteOptions options) ?others (map snd es) w0"
    using assms(2) by (rule advertise_decoded)
  also have "\<dots> = (Returned, \<lparr>status = Some 200, headers = advertHeaders,
                        body = encodeAdvert (th, ''HEAD'', rewriteOptions options)
                                 (map (\<lambda>n. (the (?others n), n)) (map snd es))\<rparr>)"
    using th sub by (rule rewriteRefs_HEAD)
  finally have "advertise data w0 =
       (Returned, \<lparr>status = Some 200, headers = advertHeaders,
                        body = encodeAdvert (lastHash es target, ''HEAD'', rewriteOptions options)
                                 (emitted es)\<rparr>)"
    by (simp only: em lh)
  then show ?thesis using assms(1) by (simp add: exactQuery_fetch)
qed

lemma emitted_plain:
  assumes "\<forall>(h, n) \<in> set es. plain h \<and> plain n \<and> h \<noteq> []"
  shows "\<forall>(h, n) \<in> set (emitted es). plain h \<and> plain n \<and> h \<noteq> []"
proof -
  have "plain (lastHash es n) \<and> plain n \<and> lastHash es n \<noteq> []" if "(h, n) \<in> set es" for h n
  proof -
    from that have "n \<in> snd ` set es" by force
    then have "(lastHash es n, n) \<in> set es" by (rule lastHash_in)
    with assms show ?thesis by blast
  qed
  then show ?thesis by (auto simp: emitted_def)
qed

text \<open>What a reader of the rewritten advertisement decodes, in the same case.\<close>

lemma decode_rewritten_HEAD:
  assumes "decodeAdvert data = Some ((headHash, ''HEAD'', options), es)"
    and "target \<in> snd ` set es"
    and "length (lastHash es target) + length (Join (rewriteOptions options) '' '') + 6 < 65531"
    and "\<forall>(h, n) \<in> set (emitted es). length h + length n + 1 < 65531"
  shows "decodeAdvert (encodeAdvert (lastHash es target, ''HEAD'', rewriteOptions options) (emitted es)) =
           Some ((lastHash es target, ''HEAD'', Split (Join (rewriteOptions options) '' '') SP),
                 emitted es)"
proof -
  let ?th = "lastHash es target"
  let ?caps = "rewriteOptions options"
  have tin: "(?th, target) \<in> set es" using assms(2) by (rule lastHash_in)
  note pl = decodeAdvert_plain [OF assms(1)]
  from pl have es: "\<forall>(h, n) \<in> set es. plain h \<and> plain n \<and> h \<noteq> []" by blast
  with tin have th: "plain ?th" by blast
  have hd: "plain ''HEAD''" by (simp add: plain_def)
  have caps: "NUL \<notin> set (Join ?caps '' '')"
    using pl by (intro Join_no_NUL rewriteOptions_no_NUL) blast
  have sz: "length ?th + length ''HEAD'' + length (Join ?caps '' '') + 2 < 65531"
    using assms(3) by simp
  have es': "\<forall>(h, n) \<in> set (emitted es). plain h \<and> plain n \<and> h \<noteq> [] \<and> length h + length n + 1 < 65531"
    using emitted_plain [OF es] assms(4) by fastforce
  show ?thesis using th hd _ caps sz es' by (rule decode_encode) simp
qed

subsection \<open>The examples\<close>

lemmas example_eval =
  encodeAdvert_def pktline_def fmt04x_eval serviceLine_def hashA_def hashB_def hashC_def hashD_def

lemma exampleHEAD_encoded:
  "exampleHEAD =
     encodeAdvert (hashA, ''HEAD'', [''symref=HEAD:refs/heads/main'', ''capA'', ''capB''])
       [(hashA, ''refs/heads/main''), (hashB, ''refs/heads/dev''), (hashC, ''refs/heads/go'')]"
  by (simp add: exampleHEAD_def example_eval)


lemma exampleBranchFirst_encoded:
  "exampleBranchFirst =
     encodeAdvert (hashA, ''refs/heads/main'', [''symref=HEAD:refs/heads/main'', ''capA'', ''capB''])
       [(hashB, ''refs/heads/dev''), (hashC, ''refs/heads/go''), (hashD, ''refs/tags/v1'')]"
  by (simp add: exampleBranchFirst_def example_eval)

lemma exampleHEAD_decoded:
  "decodeAdvert exampleHEAD =
     Some ((hashA, ''HEAD'', [''symref=HEAD:refs/heads/main'', ''capA'', ''capB'']),
           [(hashA, ''refs/heads/main''), (hashB, ''refs/heads/dev''), (hashC, ''refs/heads/go'')])"
proof -
  have s: "Split (Join [''symref=HEAD:refs/heads/main'', ''capA'', ''capB''] '' '') SP =
             [''symref=HEAD:refs/heads/main'', ''capA'', ''capB'']"
    by (rule Split_Join) simp_all
  show ?thesis unfolding exampleHEAD_encoded
    by (subst decode_encode) (simp_all add: plain_def hashA_def hashB_def hashC_def s)
qed


lemma exampleBranchFirst_decoded:
  "decodeAdvert exampleBranchFirst =
     Some ((hashA, ''refs/heads/main'', [''symref=HEAD:refs/heads/main'', ''capA'', ''capB'']),
           [(hashB, ''refs/heads/dev''), (hashC, ''refs/heads/go''), (hashD, ''refs/tags/v1'')])"
proof -
  have s: "Split (Join [''symref=HEAD:refs/heads/main'', ''capA'', ''capB''] '' '') SP =
             [''symref=HEAD:refs/heads/main'', ''capA'', ''capB'']"
    by (rule Split_Join) simp_all
  show ?thesis unfolding exampleBranchFirst_encoded
    by (subst decode_encode) (simp_all add: plain_def hashA_def hashB_def hashC_def hashD_def s)
qed

lemma exampleHEADRewritten_encoded:
  "exampleHEADRewritten =
     encodeAdvert (hashC, ''HEAD'', [''symref=refs/heads/go'', ''capA'', ''capB''])
       [(hashA, ''refs/heads/main''), (hashB, ''refs/heads/dev''), (hashC, ''refs/heads/go'')]"
  by (simp add: exampleHEADRewritten_def example_eval)

lemma exampleBranchFirstWritten_encoded:
  "exampleBranchFirstWritten =
     pktline serviceLine @ pktline [] @
     pktline (hashC @ '' refs/heads/go'' @ [NUL] @ ''symref=refs/heads/go capA capB'') @
     pktline (hashB @ '' refs/heads/dev'')"
  by (simp add: exampleBranchFirstWritten_def example_eval)

lemma example_options:
  "rewriteOptions [''symref=HEAD:refs/heads/main'', ''capA'', ''capB''] =
     [''symref=refs/heads/go'', ''capA'', ''capB'']"
  by (simp add: rewriteOptions_def HasPrefix_def target_def)

lemma example_lastHash:
  "lastHash [(hashA, ''refs/heads/main''), (hashB, ''refs/heads/dev''), (hashC, ''refs/heads/go'')]
     target = hashC"
  by (simp add: lastHash_def target_def)

lemma example_advertise:
  "advertise exampleHEAD w0 = (Returned, \<lparr>status = Some 200, headers = advertHeaders,
       body = encodeAdvert (hashC, ''HEAD'', [''symref=refs/heads/go'', ''capA'', ''capB''])
                [(hashA, ''refs/heads/main''), (hashB, ''refs/heads/dev''),
                 (hashC, ''refs/heads/go'')]\<rparr>)"
proof -
  let ?es = "[(hashA, ''refs/heads/main''), (hashB, ''refs/heads/dev''), (hashC, ''refs/heads/go'')]"
  have c: "collect Map.empty ?es target = Some hashC" by (simp add: target_def)
  have s: "set (map snd ?es) \<subseteq> dom (collect Map.empty ?es)" by (simp add: dom_collect)
  have m: "map (\<lambda>n. (the (collect Map.empty ?es n), n)) (map snd ?es) = ?es" by simp
  have "advertise exampleHEAD w0 =
      rewriteRefs hashA ''HEAD'' (rewriteOptions [''symref=HEAD:refs/heads/main'', ''capA'', ''capB''])
        (collect Map.empty ?es) (map snd ?es) w0"
    using exampleHEAD_decoded by (rule advertise_decoded)
  also have "\<dots> = (Returned, \<lparr>status = Some 200, headers = advertHeaders,
       body = encodeAdvert (hashC, ''HEAD'', rewriteOptions [''symref=HEAD:refs/heads/main'', ''capA'', ''capB''])
                (map (\<lambda>n. (the (collect Map.empty ?es n), n)) (map snd ?es))\<rparr>)"
    using c s by (rule rewriteRefs_HEAD)
  finally show ?thesis by (simp only: m example_options)
qed

lemma example_body:
  "body (resp (infoRefs serviceQuery (Upstream 200 exampleHEAD))) =
     encodeAdvert (hashC, ''HEAD'', [''symref=refs/heads/go'', ''capA'', ''capB''])
                       [(hashA, ''refs/heads/main''), (hashB, ''refs/heads/dev''),
                        (hashC, ''refs/heads/go'')]"
proof -
  let ?es = "[(hashA, ''refs/heads/main''), (hashB, ''refs/heads/dev''), (hashC, ''refs/heads/go'')]"
  have c: "collect Map.empty ?es target = Some hashC" by (simp add: target_def)
  have s: "set (map snd ?es) \<subseteq> dom (collect Map.empty ?es)" by (simp add: dom_collect)
  have m: "map (\<lambda>n. (the (collect Map.empty ?es n), n)) (map snd ?es) = ?es" by simp
  have "advertise exampleHEAD w0 =
      rewriteRefs hashA ''HEAD'' (rewriteOptions [''symref=HEAD:refs/heads/main'', ''capA'', ''capB''])
        (collect Map.empty ?es) (map snd ?es) w0"
    using exampleHEAD_decoded by (rule advertise_decoded)
  also have "\<dots> = (Returned, \<lparr>status = Some 200, headers = advertHeaders,
       body = encodeAdvert (hashC, ''HEAD'', rewriteOptions [''symref=HEAD:refs/heads/main'', ''capA'', ''capB''])
                (map (\<lambda>n. (the (collect Map.empty ?es n), n)) (map snd ?es))\<rparr>)"
    using c s by (rule rewriteRefs_HEAD)
  finally have "advertise exampleHEAD w0 = (Returned, \<lparr>status = Some 200, headers = advertHeaders,
       body = encodeAdvert (hashC, ''HEAD'', [''symref=refs/heads/go'', ''capA'', ''capB'']) ?es\<rparr>)"
    by (simp only: m example_options)
  then show ?thesis by (simp add: exactQuery_fetch [OF serviceQuery_exact])
qed

lemma example_body_decoded:
  "decodeAdvert (body (resp (infoRefs serviceQuery (Upstream 200 exampleHEAD)))) =
     Some ((hashC, ''HEAD'', [''symref=refs/heads/go'', ''capA'', ''capB'']),
           [(hashA, ''refs/heads/main''), (hashB, ''refs/heads/dev''), (hashC, ''refs/heads/go'')])"
proof -
  have s: "Split (Join [''symref=refs/heads/go'', ''capA'', ''capB''] '' '') SP =
             [''symref=refs/heads/go'', ''capA'', ''capB'']"
    by (rule Split_Join) simp_all
  show ?thesis unfolding example_body
    by (subst decode_encode) (simp_all add: plain_def hashA_def hashB_def hashC_def s)
qed

lemma exampleTwice_encoded:
  "exampleTwice =
     encodeAdvert (hashA, ''HEAD'', [''symref=HEAD:refs/heads/main'', ''capA'', ''capB''])
       [(hashA, ''refs/heads/go''), (hashB, ''refs/heads/dev''), (hashC, ''refs/heads/go'')]"
  by (simp add: exampleTwice_def example_eval)

lemma exampleTwice_decoded:
  "decodeAdvert exampleTwice =
     Some ((hashA, ''HEAD'', [''symref=HEAD:refs/heads/main'', ''capA'', ''capB'']),
           [(hashA, ''refs/heads/go''), (hashB, ''refs/heads/dev''), (hashC, ''refs/heads/go'')])"
proof -
  have s: "Split (Join [''symref=HEAD:refs/heads/main'', ''capA'', ''capB''] '' '') SP =
             [''symref=HEAD:refs/heads/main'', ''capA'', ''capB'']"
    by (rule Split_Join) simp_all
  show ?thesis unfolding exampleTwice_encoded
    by (subst decode_encode) (simp_all add: plain_def hashA_def hashB_def hashC_def s)
qed

lemma exampleTwiceRewritten_encoded:
  "exampleTwiceRewritten =
     encodeAdvert (hashC, ''HEAD'', [''symref=refs/heads/go'', ''capA'', ''capB''])
       [(hashC, ''refs/heads/go''), (hashB, ''refs/heads/dev''), (hashC, ''refs/heads/go'')]"
  by (simp add: exampleTwiceRewritten_def example_eval)

lemma exampleTwiceRewritten_decoded:
  "decodeAdvert exampleTwiceRewritten =
     Some ((hashC, ''HEAD'', [''symref=refs/heads/go'', ''capA'', ''capB'']),
           [(hashC, ''refs/heads/go''), (hashB, ''refs/heads/dev''), (hashC, ''refs/heads/go'')])"
proof -
  have s: "Split (Join [''symref=refs/heads/go'', ''capA'', ''capB''] '' '') SP =
             [''symref=refs/heads/go'', ''capA'', ''capB'']"
    by (rule Split_Join) simp_all
  show ?thesis unfolding exampleTwiceRewritten_encoded
    by (subst decode_encode) (simp_all add: plain_def hashB_def hashC_def s)
qed

lemma exampleTwice_lastHash:
  "lastHash [(hashA, ''refs/heads/go''), (hashB, ''refs/heads/dev''), (hashC, ''refs/heads/go'')]
     target = hashC"
  by (simp add: lastHash_def target_def)

lemma exampleTwice_emitted:
  "emitted [(hashA, ''refs/heads/go''), (hashB, ''refs/heads/dev''), (hashC, ''refs/heads/go'')] =
     [(hashC, ''refs/heads/go''), (hashB, ''refs/heads/dev''), (hashC, ''refs/heads/go'')]"
  by (simp add: emitted_def lastHash_def)

lemma example_Split_Join:
  "Split (Join [''symref=refs/heads/go'', ''capA'', ''capB''] '' '') SP =
     [''symref=refs/heads/go'', ''capA'', ''capB'']"
  by (rule Split_Join) simp_all

section \<open>The claims\<close>

subsection \<open>C1: a first reference other than HEAD\<close>

text \<open>
  The handler on an advertisement that decodes, whose first reference is not \<open>HEAD\<close>
  and whose other references contain \<open>refs/heads/go\<close>. Line 426 sets \<open>first\<close> to the
  target before line 427 stores \<open>others[first]\<close> and line 428 appends \<open>first\<close>: the
  name of the old first reference is never stored, the target stands in \<open>order\<close> once
  more, and line 430 deletes it from \<open>others\<close>. The loop of lines 439-446 writes the
  names that sort before the target and panics at the target.
\<close>

lemma infoRefs_branch_first:
  assumes "exactQuery q"
    and "decodeAdvert data = Some ((headHash, first, options), es)"
    and "first \<noteq> ''HEAD''"
    and "target \<in> snd ` set es"
  shows "infoRefs q (Upstream 200 data) =
           \<lparr>fetched = True,
            resp = \<lparr>status = Some 200, headers = advertHeaders,
                    body = pktline serviceLine @ pktline [] @
                           pktline (lastHash es target @ '' '' @ target @ [NUL] @
                                    Join (rewriteOptions options) '' '') @
                           concat (map (\<lambda>n. pktline (lastHash es n @ '' '' @ n))
                              (takeWhile (\<lambda>n. n \<noteq> target) (sort (map snd es @ [target]))))\<rparr>,
            outcome = Panicked (PanicMsg ''invalid other reference: refs/heads/go'')\<rparr>"
proof -
  let ?others = "collect Map.empty es"
  have d: "dom ?others = snd ` set es" by (simp add: dom_collect)
  with assms(4) obtain th where th: "?others target = Some th" by blast
  then have lh: "th = lastHash es target" by (simp add: lastHash_def)
  have sub: "set (map snd es) \<subseteq> dom ?others" using d by simp
  have tin: "target \<in> set (map snd es)" using assms(4) by simp
  have "advertise data w0 =
          rewriteRefs headHash first (rewriteOptions options) ?others (map snd es) w0"
    using assms(2) by (rule advertise_decoded)
  also note rewriteRefs_branch [OF assms(3) th sub tin]
  finally show ?thesis using assms(1) by (simp add: exactQuery_fetch lh lastHash_def)
qed

text \<open>
  Claim C1: for an advertisement whose first reference is not \<open>HEAD\<close> and whose other
  references contain the target, the rewrite makes the target the first entry,
  removes it from the others, folds the old first reference into them, sorts them,
  and writes one record for each, then a flush record. The code does not: on the
  advertisement \<open>refs/heads/main\<close> (first), \<open>refs/heads/dev\<close>, \<open>refs/heads/go\<close>,
  \<open>refs/tags/v1\<close> it writes the header, the blank record, the first entry
  \<open>refs/heads/go\<close> and the entry \<open>refs/heads/dev\<close>, and panics with
  \<open>invalid other reference: refs/heads/go\<close>: no entry for \<open>refs/heads/main\<close>, none
  for \<open>refs/tags/v1\<close>, no flush record.
\<close>

theorem infoRefs_branch_first_example:
  "infoRefs serviceQuery (Upstream 200 exampleBranchFirst) =
     \<lparr>fetched = True,
      resp = \<lparr>status = Some 200, headers = advertHeaders, body = exampleBranchFirstWritten\<rparr>,
      outcome = Panicked (PanicMsg ''invalid other reference: refs/heads/go'')\<rparr>"
proof -
  let ?es = "[(hashB, ''refs/heads/dev''), (hashC, ''refs/heads/go''), (hashD, ''refs/tags/v1'')]"
  have t: "target \<in> snd ` set ?es" by (simp add: target_def)
  have f: "''refs/heads/main'' \<noteq> ''HEAD''" by simp
  have so: "sort (map snd ?es @ [target]) =
      [''refs/heads/dev'', ''refs/heads/go'', ''refs/heads/go'', ''refs/tags/v1'']"
    by (simp add: target_def)
  have l1: "lastHash ?es target = hashC" by (simp add: lastHash_def target_def)
  have l2: "lastHash ?es ''refs/heads/dev'' = hashB" by (simp add: lastHash_def)
  show ?thesis
    unfolding infoRefs_branch_first [OF serviceQuery_exact exampleBranchFirst_decoded f t] so l1
      exampleBranchFirstWritten_encoded
    by (simp add: example_options target_def l2)
qed

subsection \<open>C2: the outcomes of the record decoder\<close>

text \<open>
  Claim C2: for every byte buffer \<open>readPkt\<close> returns not-ok, or an empty payload for
  a zero length, or the payload from offset 4 to the length, and nothing else happens.
  The decoder does not do this at the buffer \<open>0001\<close>: the four bytes parse as the length
  1, the buffer holds at least one byte, and the slice \<open>data[4:1]\<close> panics. The handler
  that reads such a record as the upstream's first panics with nothing written.
\<close>

theorem readPkt_short_size_panics:
  "ParseInt ''0001'' = Some 1 \<and> readPkt ''0001'' = Inl SliceBoundsOutOfRange \<and>
   infoRefs [(''service'', [''git-upload-pack''])] (Upstream 200 ''0001'') =
     \<lparr>fetched = True, resp = w0, outcome = Panicked SliceBoundsOutOfRange\<rparr>"
  by (simp add: readPkt_def ParseInt_def ParseUint_def digit16_def lower_def infoRefs_def
      queryOK_def lenValues_def advertise_def)

subsection \<open>C3: the round trip of the record codec\<close>

text \<open>
  Claim C3, amended: for every payload of fewer than 65531 bytes, so that
  \<open>4 + len + 1\<close> fits four hexadecimal digits, decoding the encoded payload gives the
  payload back, whatever bytes follow it; a sequence of such payloads, encoded one
  after the other, decodes to the sequence. The encoding of the empty payload is
  \<open>0000\<close>; that of a non-empty one is \<open>4 + len + 1\<close> in four lowercase hexadecimal
  digits, the payload, and one newline.
\<close>

theorem pktline_roundtrip:
  assumes "\<forall>p \<in> set ps. length p < 65531"
  shows "readPkts (concat (map pktline ps)) = Some ps \<and>
         (\<forall>p \<in> set ps. (\<forall>rest. readPkt (pktline p @ rest) = Inr (p, True, rest)) \<and>
            pktline p = (if p = [] then ''0000'' else fmt04x (4 + length p + 1) @ p @ [NL]) \<and>
            length (fmt04x (4 + length p + 1)) = 4 \<and>
            set (fmt04x (4 + length p + 1)) \<subseteq> set ''0123456789abcdef'' \<and>
            digits16 0 (fmt04x (4 + length p + 1)) = Some (4 + length p + 1))"
proof (intro conjI ballI allI)
  show "readPkts (concat (map pktline ps)) = Some ps" using assms by (rule readPkts_pktlines)
next
  fix p rest assume "p \<in> set ps"
  with assms have "length p < 65531" by blast
  then show "readPkt (pktline p @ rest) = Inr (p, True, rest)" by (rule readPkt_pktline)
next
  fix p
  have "fmt04x 0 = ''0000''" by (simp add: fmt04x_eval)
  then show "pktline p = (if p = [] then ''0000'' else fmt04x (4 + length p + 1) @ p @ [NL])"
    by (simp add: pktline_def)
next
  fix p assume "p \<in> set ps"
  with assms have "length p < 65531" by blast
  then show "length (fmt04x (4 + length p + 1)) = 4" by (intro length_fmt04x) simp
next
  fix p
  show "set (fmt04x (4 + length p + 1)) \<subseteq> set ''0123456789abcdef''" by (rule set_fmt04x)
next
  fix p
  show "digits16 0 (fmt04x (4 + length p + 1)) = Some (4 + length p + 1)" by (rule digits16_fmt04x)
qed

theorem pktline_roundtrip_witness:
  "readPkts (concat (map pktline [''# service=git-upload-pack'', [], ''abc def''])) =
     Some [''# service=git-upload-pack'', [], ''abc def''] \<and>
   readPkt (pktline ''abc def'' @ ''0000'') = Inr (''abc def'', True, ''0000'') \<and>
   pktline ''abc def'' = ''000cabc def'' @ [NL]"
proof -
  have h: "\<forall>p \<in> set [''# service=git-upload-pack'', [], ''abc def'']. length p < 65531" by simp
  have f: "pktline ''abc def'' = ''000cabc def'' @ [NL]" by (simp add: pktline_def fmt04x_eval)
  have m: "''abc def'' \<in> set [''# service=git-upload-pack'', [], ''abc def'']" by simp
  note r = pktline_roundtrip [OF h]
  from r have a: "readPkts (concat (map pktline [''# service=git-upload-pack'', [], ''abc def''])) =
       Some [''# service=git-upload-pack'', [], ''abc def'']"
    by (rule conjunct1)
  from r m have b: "readPkt (pktline ''abc def'' @ ''0000'') = Inr (''abc def'', True, ''0000'')"
    by blast
  from a b f show ?thesis by (simp only: simp_thms)
qed

text \<open>
  The claim as stated, for every payload, fails at a payload of 65531 bytes: what
  is decoded from its encoding is not the payload.
\<close>

theorem pktline_roundtrip_counterexample:
  "readPkt (pktline (replicate 65531 (CHR ''a''))) \<noteq> Inr (replicate 65531 (CHR ''a''), True, [])"
proof
  assume a: "readPkt (pktline (replicate 65531 (CHR ''a''))) = Inr (replicate 65531 (CHR ''a''), True, [])"
  have "length (replicate 65531 (CHR ''a'')) = 65531" by (rule length_replicate)
  from readPkt_pktline_long [OF this] obtain m d where
    "readPkt (pktline (replicate 65531 (CHR ''a''))) = Inr (m, True, d)" and "d \<noteq> []" by blast
  with a show False by (simp only: sum.inject prod.inject simp_thms)
qed

subsection \<open>C4: the pairs of hash and name\<close>

text \<open>
  Claim C4, amended: for every advertisement that decodes, whose first reference is
  \<open>HEAD\<close>, whose other references have pairwise distinct names and contain
  \<open>refs/heads/go\<close>, and whose rewritten records stay below 65531 bytes, the other
  entries of the rewritten advertisement are those of the upstream, and the first
  entry is \<open>HEAD\<close> with the hash of \<open>refs/heads/go\<close>: the multiset of pairs of the
  output is that of the input with the pair of \<open>HEAD\<close> and its hash replaced by the
  pair of \<open>HEAD\<close> and the hash of the target. The two multisets are equal exactly when
  \<open>HEAD\<close> was advertised with the hash of the target.
\<close>

theorem refPairs_HEAD:
  assumes "exactQuery q"
    and "decodeAdvert data = Some ((headHash, ''HEAD'', options), es)"
    and "target \<in> snd ` set es"
    and "distinct (map snd es)"
    and "length (lastHash es target) + length (Join (rewriteOptions options) '' '') + 6 < 65531"
    and "\<forall>(h, n) \<in> set es. length h + length n + 1 < 65531"
  shows "refPairs data = Some (add_mset (headHash, ''HEAD'') (mset es)) \<and>
         refPairs (body (resp (infoRefs q (Upstream 200 data)))) =
           Some (add_mset (lastHash es target, ''HEAD'') (mset es)) \<and>
         (lastHash es target, target) \<in> set es \<and>
         (refPairs (body (resp (infoRefs q (Upstream 200 data)))) = refPairs data \<longleftrightarrow>
            lastHash es target = headHash)"
proof -
  let ?th = "lastHash es target"
  let ?caps = "rewriteOptions options"
  have 1: "refPairs data = Some (add_mset (headHash, ''HEAD'') (mset es))"
    using assms(2) by (simp add: refPairs_def)
  have tin: "(?th, target) \<in> set es" using assms(3) by (rule lastHash_in)
  note pl = decodeAdvert_plain [OF assms(2)]
  from pl have es: "\<forall>(h, n) \<in> set es. plain h \<and> plain n \<and> h \<noteq> []" by blast
  with tin have th: "plain ?th" by blast
  have hd: "plain ''HEAD''" by (simp add: plain_def)
  have caps: "NUL \<notin> set (Join ?caps '' '')"
    using pl by (intro Join_no_NUL rewriteOptions_no_NUL) blast
  have sz: "length ?th + length ''HEAD'' + length (Join ?caps '' '') + 2 < 65531"
    using assms(5) by simp
  have es': "\<forall>(h, n) \<in> set es. plain h \<and> plain n \<and> h \<noteq> [] \<and> length h + length n + 1 < 65531"
    using es assms(6) by fastforce
  have b: "body (resp (infoRefs q (Upstream 200 data))) = encodeAdvert (?th, ''HEAD'', ?caps) es"
  proof -
    let ?others = "collect Map.empty es"
    have d: "dom ?others = snd ` set es" by (simp add: dom_collect)
    with assms(3) obtain h where h: "?others target = Some h" by blast
    then have lh: "h = ?th" by (simp add: lastHash_def)
    have sub: "set (map snd es) \<subseteq> dom ?others" using d by simp
    have "map (\<lambda>n. (the (?others n), n)) (map snd es) = emitted es"
      by (simp add: emitted_def lastHash_def comp_def case_prod_beta)
    then have em: "map (\<lambda>n. (the (?others n), n)) (map snd es) = es"
      by (simp only: emitted_distinct [OF assms(4)])
    have "advertise data w0 =
            rewriteRefs headHash ''HEAD'' ?caps ?others (map snd es) w0"
      using assms(2) by (rule advertise_decoded)
    also note rewriteRefs_HEAD [OF h sub]
    finally have "advertise data w0 =
        (Returned, \<lparr>status = Some 200, headers = advertHeaders,
                     body = encodeAdvert (?th, ''HEAD'', ?caps) es\<rparr>)"
      by (simp only: em lh)
    then show ?thesis using assms(1) by (simp add: exactQuery_fetch)
  qed
  have "decodeAdvert (encodeAdvert (?th, ''HEAD'', ?caps) es) =
          Some ((?th, ''HEAD'', Split (Join ?caps '' '') SP), es)"
    using th hd _ caps sz es' by (rule decode_encode) simp
  then have 2: "refPairs (body (resp (infoRefs q (Upstream 200 data)))) =
           Some (add_mset (?th, ''HEAD'') (mset es))"
    by (simp add: refPairs_def b)
  show ?thesis using 1 2 tin by simp
qed

theorem refPairs_HEAD_witness:
  "refPairs exampleHEAD =
     Some {#(hashA, ''HEAD''), (hashA, ''refs/heads/main''), (hashB, ''refs/heads/dev''),
            (hashC, ''refs/heads/go'')#} \<and>
   refPairs (body (resp (infoRefs serviceQuery (Upstream 200 exampleHEAD)))) =
     Some {#(hashC, ''HEAD''), (hashA, ''refs/heads/main''), (hashB, ''refs/heads/dev''),
            (hashC, ''refs/heads/go'')#}"
proof -
  let ?es = "[(hashA, ''refs/heads/main''), (hashB, ''refs/heads/dev''), (hashC, ''refs/heads/go'')]"
  have t: "target \<in> snd ` set ?es" by (simp add: target_def)
  have d: "distinct (map snd ?es)" by simp
  have l: "lastHash ?es target = hashC" by (simp add: lastHash_def target_def)
  have 5: "length (lastHash ?es target) +
        length (Join (rewriteOptions [''symref=HEAD:refs/heads/main'', ''capA'', ''capB'']) '' '') + 6 < 65531"
    by (simp only: l example_options) (simp add: hashC_def)
  have 6: "\<forall>(h, n) \<in> set ?es. length h + length n + 1 < 65531"
    by (simp add: hashA_def hashB_def hashC_def)
  from refPairs_HEAD [OF serviceQuery_exact exampleHEAD_decoded t d 5 6]
  show ?thesis by (simp add: l)
qed

text \<open>
  The claim as stated, that the two multisets are equal, fails on the example of
  section 8: the input holds \<open>HEAD\<close> with the hash of \<open>refs/heads/main\<close>, the output
  holds \<open>HEAD\<close> with the hash of \<open>refs/heads/go\<close>.
\<close>

theorem refPairs_counterexample:
  "refPairs exampleHEAD =
     Some {#(hashA, ''HEAD''), (hashA, ''refs/heads/main''), (hashB, ''refs/heads/dev''),
            (hashC, ''refs/heads/go'')#} \<and>
   refPairs (body (resp (infoRefs serviceQuery (Upstream 200 exampleHEAD)))) =
     Some {#(hashC, ''HEAD''), (hashA, ''refs/heads/main''), (hashB, ''refs/heads/dev''),
            (hashC, ''refs/heads/go'')#} \<and>
   refPairs (body (resp (infoRefs serviceQuery (Upstream 200 exampleHEAD)))) \<noteq> refPairs exampleHEAD"
proof -
  have "(hashA, ''HEAD'') \<noteq> (hashC, ''HEAD'')" by (simp add: hashA_def hashC_def)
  then show ?thesis
    by (simp add: refPairs_def example_body_decoded exampleHEAD_decoded)
qed

subsection \<open>C5: the example of section 8\<close>

text \<open>
  Claim C5, amended: on the example (first reference \<open>HEAD\<close> with the capabilities
  \<open>symref=HEAD:refs/heads/main capA capB\<close>, then \<open>refs/heads/main\<close>, \<open>refs/heads/dev\<close>
  and \<open>refs/heads/go\<close>) the rewritten advertisement has the first entry \<open>HEAD\<close> with the
  hash of \<open>refs/heads/go\<close> and the capabilities \<open>symref=refs/heads/go capA capB\<close>, and
  the other entries in the order of the upstream, \<open>refs/heads/main\<close>,
  \<open>refs/heads/dev\<close>, \<open>refs/heads/go\<close>, with their hashes.
\<close>

theorem example_rewritten:
  "infoRefs serviceQuery (Upstream 200 exampleHEAD) =
     \<lparr>fetched = True,
      resp = \<lparr>status = Some 200, headers = advertHeaders, body = exampleHEADRewritten\<rparr>,
      outcome = Returned\<rparr> \<and>
   exampleHEADRewritten =
     encodeAdvert (hashC, ''HEAD'', [''symref=refs/heads/go'', ''capA'', ''capB''])
       [(hashA, ''refs/heads/main''), (hashB, ''refs/heads/dev''), (hashC, ''refs/heads/go'')]"
  by (simp add: exactQuery_fetch [OF serviceQuery_exact] example_advertise
      exampleHEADRewritten_encoded)

text \<open>
  The claim as stated expects the capability \<open>symref=HEAD:refs/heads/go\<close> and the
  other entries sorted (\<open>dev\<close>, \<open>go\<close>, \<open>main\<close>). The output is not that; it is
  neither the expected first entry with the entries in the order of the upstream,
  nor the first entry as written with the entries sorted.
\<close>

theorem example_counterexample:
  "body (resp (infoRefs serviceQuery (Upstream 200 exampleHEAD))) \<noteq>
     encodeAdvert (hashC, ''HEAD'', [''symref=HEAD:refs/heads/go'', ''capA'', ''capB''])
       [(hashB, ''refs/heads/dev''), (hashC, ''refs/heads/go''), (hashA, ''refs/heads/main'')] \<and>
   body (resp (infoRefs serviceQuery (Upstream 200 exampleHEAD))) \<noteq>
     encodeAdvert (hashC, ''HEAD'', [''symref=HEAD:refs/heads/go'', ''capA'', ''capB''])
       [(hashA, ''refs/heads/main''), (hashB, ''refs/heads/dev''), (hashC, ''refs/heads/go'')] \<and>
   body (resp (infoRefs serviceQuery (Upstream 200 exampleHEAD))) \<noteq>
     encodeAdvert (hashC, ''HEAD'', [''symref=refs/heads/go'', ''capA'', ''capB''])
       [(hashB, ''refs/heads/dev''), (hashC, ''refs/heads/go''), (hashA, ''refs/heads/main'')]"
  unfolding example_body by (simp add: example_eval)

subsection \<open>C6: a first reference HEAD\<close>

text \<open>
  Claim C6, amended: when the first reference of the advertisement is \<open>HEAD\<close> and the other
  references contain \<open>refs/heads/go\<close>, the handler answers 200 with the rewritten
  advertisement. Its first entry keeps the name \<open>HEAD\<close> and carries the hash of
  \<open>refs/heads/go\<close>; its other entries have the names of the upstream in the order of the
  upstream, each name with the hash of the last entry of the upstream that has this name
  (line 408 stores the hash under the name, line 440 reads it back). They are the entries
  of the upstream, unchanged, when no name is advertised twice. When the rewritten records
  stay below 65531 bytes, the bytes written decode, with the decoder of the handler, to
  exactly this first entry and these entries.
\<close>

theorem infoRefs_HEAD_first:
  assumes "exactQuery q"
    and "decodeAdvert data = Some ((headHash, ''HEAD'', options), es)"
    and "target \<in> snd ` set es"
  shows "infoRefs q (Upstream 200 data) =
           \<lparr>fetched = True,
            resp = \<lparr>status = Some 200, headers = advertHeaders,
                    body = encodeAdvert (lastHash es target, ''HEAD'', rewriteOptions options)
                             (emitted es)\<rparr>,
            outcome = Returned\<rparr> \<and>
         (lastHash es target, target) \<in> set es \<and>
         map snd (emitted es) = map snd es \<and>
         (\<forall>n \<in> snd ` set es. lastHash es n = fst (last (filter (\<lambda>e. snd e = n) es))) \<and>
         (distinct (map snd es) \<longrightarrow> emitted es = es) \<and>
         (length (lastHash es target) + length (Join (rewriteOptions options) '' '') + 6 < 65531 \<and>
          (\<forall>(h, n) \<in> set (emitted es). length h + length n + 1 < 65531) \<longrightarrow>
            decodeAdvert (body (resp (infoRefs q (Upstream 200 data)))) =
              Some ((lastHash es target, ''HEAD'', Split (Join (rewriteOptions options) '' '') SP),
                    emitted es))"
proof -
  have a: "infoRefs q (Upstream 200 data) =
           \<lparr>fetched = True,
            resp = \<lparr>status = Some 200, headers = advertHeaders,
                    body = encodeAdvert (lastHash es target, ''HEAD'', rewriteOptions options)
                             (emitted es)\<rparr>,
            outcome = Returned\<rparr>"
    using assms by (rule infoRefs_HEAD_body)
  then have b: "body (resp (infoRefs q (Upstream 200 data))) =
      encodeAdvert (lastHash es target, ''HEAD'', rewriteOptions options) (emitted es)"
    by simp
  have c: "(lastHash es target, target) \<in> set es" using assms(3) by (rule lastHash_in)
  have d: "map snd (emitted es) = map snd es" by (rule emitted_names)
  have e: "\<forall>n \<in> snd ` set es. lastHash es n = fst (last (filter (\<lambda>e. snd e = n) es))"
    using lastHash_last by blast
  have f: "distinct (map snd es) \<longrightarrow> emitted es = es" using emitted_distinct by blast
  have g: "decodeAdvert (body (resp (infoRefs q (Upstream 200 data)))) =
              Some ((lastHash es target, ''HEAD'', Split (Join (rewriteOptions options) '' '') SP),
                    emitted es)"
    if "length (lastHash es target) + length (Join (rewriteOptions options) '' '') + 6 < 65531"
      and "\<forall>(h, n) \<in> set (emitted es). length h + length n + 1 < 65531"
    unfolding b using assms(2,3) that by (rule decode_rewritten_HEAD)
  from a c d e f g show ?thesis by (intro conjI impI) blast+
qed

theorem infoRefs_HEAD_first_witness:
  "infoRefs serviceQuery (Upstream 200 exampleHEAD) =
     \<lparr>fetched = True,
      resp = \<lparr>status = Some 200, headers = advertHeaders, body = exampleHEADRewritten\<rparr>,
      outcome = Returned\<rparr> \<and>
   decodeAdvert exampleHEAD =
     Some ((hashA, ''HEAD'', [''symref=HEAD:refs/heads/main'', ''capA'', ''capB'']),
           [(hashA, ''refs/heads/main''), (hashB, ''refs/heads/dev''), (hashC, ''refs/heads/go'')]) \<and>
   decodeAdvert (body (resp (infoRefs serviceQuery (Upstream 200 exampleHEAD)))) =
     Some ((hashC, ''HEAD'', [''symref=refs/heads/go'', ''capA'', ''capB'']),
           [(hashA, ''refs/heads/main''), (hashB, ''refs/heads/dev''), (hashC, ''refs/heads/go'')])"
proof -
  let ?es = "[(hashA, ''refs/heads/main''), (hashB, ''refs/heads/dev''), (hashC, ''refs/heads/go'')]"
  let ?os = "[''symref=HEAD:refs/heads/main'', ''capA'', ''capB'']"
  have t: "target \<in> snd ` set ?es" by (simp add: target_def)
  have d: "distinct (map snd ?es)" by simp
  note r = infoRefs_HEAD_first [OF serviceQuery_exact exampleHEAD_decoded t]
  from r d have e: "emitted ?es = ?es" by blast
  have s1: "length (lastHash ?es target) + length (Join (rewriteOptions ?os) '' '') + 6 < 65531"
    unfolding example_lastHash example_options by (simp add: hashC_def)
  have s2: "\<forall>(h, n) \<in> set (emitted ?es). length h + length n + 1 < 65531"
    unfolding e by (simp add: hashA_def hashB_def hashC_def)
  from r have "infoRefs serviceQuery (Upstream 200 exampleHEAD) =
           \<lparr>fetched = True,
            resp = \<lparr>status = Some 200, headers = advertHeaders,
                    body = encodeAdvert (lastHash ?es target, ''HEAD'', rewriteOptions ?os)
                             (emitted ?es)\<rparr>,
            outcome = Returned\<rparr>" by (rule conjunct1)
  then have 1: "infoRefs serviceQuery (Upstream 200 exampleHEAD) =
     \<lparr>fetched = True,
      resp = \<lparr>status = Some 200, headers = advertHeaders, body = exampleHEADRewritten\<rparr>,
      outcome = Returned\<rparr>"
    by (simp only: e example_lastHash example_options exampleHEADRewritten_encoded)
  from r s1 s2 have "decodeAdvert (body (resp (infoRefs serviceQuery (Upstream 200 exampleHEAD)))) =
      Some ((lastHash ?es target, ''HEAD'', Split (Join (rewriteOptions ?os) '' '') SP), emitted ?es)"
    by blast
  then have 2: "decodeAdvert (body (resp (infoRefs serviceQuery (Upstream 200 exampleHEAD)))) =
     Some ((hashC, ''HEAD'', [''symref=refs/heads/go'', ''capA'', ''capB'']), ?es)"
    by (simp only: e example_lastHash example_options example_Split_Join)
  from 1 exampleHEAD_decoded 2 show ?thesis by (intro conjI)
qed

text \<open>
  The claim as stated, that the remaining entries are emitted unchanged, fails on an
  advertisement that names a reference twice: with \<open>refs/heads/go\<close> advertised first
  with the hash \<open>a\<dots>\<close> and, after \<open>refs/heads/dev\<close>, once more with the hash \<open>c\<dots>\<close>, the
  handler writes \<open>refs/heads/go\<close> with the hash \<open>c\<dots>\<close> at both places: the first of the
  remaining entries is not the one of the upstream.
\<close>

theorem infoRefs_HEAD_first_counterexample:
  "decodeAdvert exampleTwice =
     Some ((hashA, ''HEAD'', [''symref=HEAD:refs/heads/main'', ''capA'', ''capB'']),
           [(hashA, ''refs/heads/go''), (hashB, ''refs/heads/dev''), (hashC, ''refs/heads/go'')]) \<and>
   infoRefs serviceQuery (Upstream 200 exampleTwice) =
     \<lparr>fetched = True,
      resp = \<lparr>status = Some 200, headers = advertHeaders, body = exampleTwiceRewritten\<rparr>,
      outcome = Returned\<rparr> \<and>
   decodeAdvert exampleTwiceRewritten =
     Some ((hashC, ''HEAD'', [''symref=refs/heads/go'', ''capA'', ''capB'']),
           [(hashC, ''refs/heads/go''), (hashB, ''refs/heads/dev''), (hashC, ''refs/heads/go'')]) \<and>
   [(hashC, ''refs/heads/go''), (hashB, ''refs/heads/dev''), (hashC, ''refs/heads/go'')] \<noteq>
   [(hashA, ''refs/heads/go''), (hashB, ''refs/heads/dev''), (hashC, ''refs/heads/go'')]"
proof -
  let ?es = "[(hashA, ''refs/heads/go''), (hashB, ''refs/heads/dev''), (hashC, ''refs/heads/go'')]"
  have t: "target \<in> snd ` set ?es" by (simp add: target_def)
  have 1: "infoRefs serviceQuery (Upstream 200 exampleTwice) =
     \<lparr>fetched = True,
      resp = \<lparr>status = Some 200, headers = advertHeaders, body = exampleTwiceRewritten\<rparr>,
      outcome = Returned\<rparr>"
    using infoRefs_HEAD_body [OF serviceQuery_exact exampleTwice_decoded t]
    by (simp only: exampleTwice_emitted exampleTwice_lastHash example_options
          exampleTwiceRewritten_encoded)
  have 2: "[(hashC, ''refs/heads/go''), (hashB, ''refs/heads/dev''), (hashC, ''refs/heads/go'')] \<noteq> ?es"
    by (simp add: hashA_def hashC_def)
  from exampleTwice_decoded 1 exampleTwiceRewritten_decoded 2 show ?thesis by (intro conjI)
qed

subsection \<open>C7: the capabilities of the first reference\<close>

text \<open>
  Claim C7: in the capability list of the first reference, every capability of the
  form \<open>symref=\<close> followed by anything becomes \<open>symref=refs/heads/go\<close>, and every
  other capability stays what it was, at its position in the list. For every
  advertisement that decodes and contains \<open>refs/heads/go\<close>, with the first reference
  \<open>HEAD\<close> or another one: the handler reads the capabilities \<open>options\<close> with the first
  reference, and the response starts with the header, the blank record and the first
  entry, which holds \<open>rewriteOptions options\<close> joined by spaces (line 438); when this
  record stays below 65531 bytes the first entry read back from the response has the
  capability list \<open>rewriteOptions options\<close>, which has the length of \<open>options\<close> and at
  every position \<open>symref=refs/heads/go\<close> for a capability that starts with \<open>symref=\<close>
  and the capability of \<open>options\<close> otherwise.
\<close>

theorem infoRefs_capabilities:
  assumes "exactQuery q"
    and "decodeAdvert data = Some ((headHash, first, options), es)"
    and "target \<in> snd ` set es"
  shows "firstEntry data = Some (headHash, first, options) \<and>
         (\<exists>rest. body (resp (infoRefs q (Upstream 200 data))) =
            pktline serviceLine @ pktline [] @
            pktline (lastHash es target @ '' '' @
                     (if first = ''HEAD'' then ''HEAD'' else target) @ [NUL] @
                     Join (rewriteOptions options) '' '') @ rest) \<and>
         (length (lastHash es target) + length (if first = ''HEAD'' then ''HEAD'' else target) +
            length (Join (rewriteOptions options) '' '') + 2 < 65531 \<longrightarrow>
          firstEntry (body (resp (infoRefs q (Upstream 200 data)))) =
            Some (lastHash es target, (if first = ''HEAD'' then ''HEAD'' else target),
                  Split (Join (rewriteOptions options) '' '') SP)) \<and>
         (options \<noteq> [] \<longrightarrow> Split (Join (rewriteOptions options) '' '') SP = rewriteOptions options) \<and>
         length (rewriteOptions options) = length options \<and>
         (\<forall>i < length options.
            rewriteOptions options ! i =
              (if \<exists>rest. options ! i = ''symref='' @ rest then ''symref=refs/heads/go''
               else options ! i))"
proof -
  let ?th = "lastHash es target"
  let ?nm = "if first = ''HEAD'' then ''HEAD'' else target"
  let ?caps = "rewriteOptions options"
  let ?body = "body (resp (infoRefs q (Upstream 200 data)))"
  have 1: "firstEntry data = Some (headHash, first, options)"
    using assms(2) by (rule decodeAdvert_firstEntry)
  have 2: "\<exists>rest. ?body = pktline serviceLine @ pktline [] @
                     pktline (?th @ '' '' @ ?nm @ [NUL] @ Join ?caps '' '') @ rest"
  proof (cases "first = ''HEAD''")
    case True
    have "infoRefs q (Upstream 200 data) =
           \<lparr>fetched = True,
            resp = \<lparr>status = Some 200, headers = advertHeaders,
                    body = encodeAdvert (?th, ''HEAD'', ?caps) (emitted es)\<rparr>,
            outcome = Returned\<rparr>"
      using assms(1) assms(2) [unfolded True] assms(3) by (rule infoRefs_HEAD_body)
    then show ?thesis using True by (simp add: encodeAdvert_def)
  next
    case False
    note infoRefs_branch_first [OF assms(1,2) False assms(3)]
    then show ?thesis using False by simp
  qed
  note pl = decodeAdvert_plain [OF assms(2)]
  have tin: "(?th, target) \<in> set es" using assms(3) by (rule lastHash_in)
  have th: "plain ?th" using pl tin by blast
  have nm: "plain ?nm" by (simp add: plain_def target_def)
  have ne: "?nm \<noteq> []" by (simp add: target_def)
  have caps: "NUL \<notin> set (Join ?caps '' '')"
    using pl by (intro Join_no_NUL rewriteOptions_no_NUL) blast
  have 3: "firstEntry ?body = Some (?th, ?nm, Split (Join ?caps '' '') SP)"
    if sz: "length ?th + length ?nm + length (Join ?caps '' '') + 2 < 65531"
  proof -
    from 2 obtain rest where b: "?body = pktline serviceLine @ pktline [] @
                     pktline (?th @ '' '' @ ?nm @ [NUL] @ Join ?caps '' '') @ rest" by blast
    show ?thesis unfolding b using th nm ne caps sz by (rule firstEntry_encoded)
  qed
  have 4: "Split (Join ?caps '' '') SP = ?caps" if "options \<noteq> []"
  proof (rule Split_Join)
    show "?caps \<noteq> []" using that by (simp add: rewriteOptions_Nil)
    show "\<forall>c\<in>set ?caps. SP \<notin> set c"
      using decodeAdvert_options [OF assms(2)] by (intro rewriteOptions_no_SP) blast
  qed
  note 5 = rewriteOptions_nth [of options]
  from 1 2 3 4 5 show ?thesis by (intro conjI impI) blast+
qed

theorem infoRefs_capabilities_witness:
  "firstEntry exampleHEAD =
     Some (hashA, ''HEAD'', [''symref=HEAD:refs/heads/main'', ''capA'', ''capB'']) \<and>
   firstEntry (body (resp (infoRefs serviceQuery (Upstream 200 exampleHEAD)))) =
     Some (hashC, ''HEAD'', [''symref=refs/heads/go'', ''capA'', ''capB'']) \<and>
   firstEntry exampleBranchFirst =
     Some (hashA, ''refs/heads/main'', [''symref=HEAD:refs/heads/main'', ''capA'', ''capB'']) \<and>
   firstEntry (body (resp (infoRefs serviceQuery (Upstream 200 exampleBranchFirst)))) =
     Some (hashC, ''refs/heads/go'', [''symref=refs/heads/go'', ''capA'', ''capB''])"
proof -
  let ?os = "[''symref=HEAD:refs/heads/main'', ''capA'', ''capB'']"
  let ?e1 = "[(hashA, ''refs/heads/main''), (hashB, ''refs/heads/dev''), (hashC, ''refs/heads/go'')]"
  let ?e2 = "[(hashB, ''refs/heads/dev''), (hashC, ''refs/heads/go''), (hashD, ''refs/tags/v1'')]"
  have t1: "target \<in> snd ` set ?e1" by (simp add: target_def)
  have t2: "target \<in> snd ` set ?e2" by (simp add: target_def)
  have l2: "lastHash ?e2 target = hashC" by (simp add: lastHash_def target_def)
  have n: "''refs/heads/main'' \<noteq> ''HEAD''" by simp
  note r1 = infoRefs_capabilities [OF serviceQuery_exact exampleHEAD_decoded t1]
  note r2 = infoRefs_capabilities [OF serviceQuery_exact exampleBranchFirst_decoded t2]
  have s1: "length (lastHash ?e1 target) + length (if ''HEAD'' = ''HEAD'' then ''HEAD'' else target) +
            length (Join (rewriteOptions ?os) '' '') + 2 < 65531"
    unfolding example_lastHash example_options by (simp add: hashC_def)
  have s2: "length (lastHash ?e2 target) +
            length (if ''refs/heads/main'' = ''HEAD'' then ''HEAD'' else target) +
            length (Join (rewriteOptions ?os) '' '') + 2 < 65531"
    unfolding l2 example_options by (simp add: hashC_def target_def)
  from r1 have a: "firstEntry exampleHEAD = Some (hashA, ''HEAD'', ?os)" by (rule conjunct1)
  from r2 have c: "firstEntry exampleBranchFirst = Some (hashA, ''refs/heads/main'', ?os)"
    by (rule conjunct1)
  from r1 s1 have "firstEntry (body (resp (infoRefs serviceQuery (Upstream 200 exampleHEAD)))) =
      Some (lastHash ?e1 target, (if ''HEAD'' = ''HEAD'' then ''HEAD'' else target),
            Split (Join (rewriteOptions ?os) '' '') SP)"
    by blast
  then have b: "firstEntry (body (resp (infoRefs serviceQuery (Upstream 200 exampleHEAD)))) =
      Some (hashC, ''HEAD'', [''symref=refs/heads/go'', ''capA'', ''capB''])"
    by (simp only: example_lastHash example_options example_Split_Join if_True simp_thms)
  from r2 s2 have "firstEntry (body (resp (infoRefs serviceQuery (Upstream 200 exampleBranchFirst)))) =
      Some (lastHash ?e2 target, (if ''refs/heads/main'' = ''HEAD'' then ''HEAD'' else target),
            Split (Join (rewriteOptions ?os) '' '') SP)"
    by blast
  then have d: "firstEntry (body (resp (infoRefs serviceQuery (Upstream 200 exampleBranchFirst)))) =
      Some (hashC, ''refs/heads/go'', [''symref=refs/heads/go'', ''capA'', ''capB''])"
    using n unfolding l2 example_options example_Split_Join by (simp add: target_def)
  from a b c d show ?thesis by (intro conjI)
qed

subsection \<open>C8: the query of the request\<close>

text \<open>
  Claim C8: a request whose query is not exactly the one parameter
  \<open>service=git-upload-pack\<close> (no \<open>service\<close>, a repeated \<open>service\<close>, another parameter
  beside it, another value) is answered with status 403 and the text
  \<open>invalid query: \<close> followed by the query, and the upstream is not contacted; the
  exact query goes on to the upstream.
\<close>

theorem infoRefs_query:
  "(\<not> exactQuery q \<longrightarrow>
      infoRefs q up =
        \<lparr>fetched = False,
         resp = \<lparr>status = Some 403, headers = [], body = ''invalid query: '' @ fmtValues q\<rparr>,
         outcome = Returned\<rparr>) \<and>
   (exactQuery q \<longrightarrow> fetched (infoRefs q up))"
  by (auto simp: infoRefs_def queryOK_exact Write_def WriteHeader_def w0_def Let_def
      split: upstream.splits prod.splits)

theorem infoRefs_query_witness:
  "infoRefs [(''service'', [''git-upload-pack'']), (''extra'', [''1''])] (Upstream 200 []) =
     \<lparr>fetched = False,
      resp = \<lparr>status = Some 403, headers = [],
              body = ''invalid query: map[extra:[1] service:[git-upload-pack]]''\<rparr>,
      outcome = Returned\<rparr> \<and>
   infoRefs [] (Upstream 200 []) =
     \<lparr>fetched = False,
      resp = \<lparr>status = Some 403, headers = [], body = ''invalid query: map[]''\<rparr>,
      outcome = Returned\<rparr> \<and>
   infoRefs [(''service'', [''git-upload-pack'', ''git-upload-pack''])] (Upstream 200 []) =
     \<lparr>fetched = False,
      resp = \<lparr>status = Some 403, headers = [],
              body = ''invalid query: map[service:[git-upload-pack git-upload-pack]]''\<rparr>,
      outcome = Returned\<rparr> \<and>
   infoRefs [(''service'', [''git-receive-pack''])] (Upstream 200 []) =
     \<lparr>fetched = False,
      resp = \<lparr>status = Some 403, headers = [],
              body = ''invalid query: map[service:[git-receive-pack]]''\<rparr>,
      outcome = Returned\<rparr> \<and>
   fetched (infoRefs [(''service'', [''git-upload-pack''])] (Upstream 200 []))"
proof -
  have 1: "\<not> exactQuery [(''service'', [''git-upload-pack'']), (''extra'', [''1''])]"
    by (auto simp: exactQuery_def)
  have 2: "\<not> exactQuery []" by (simp add: exactQuery_def)
  have 3: "\<not> exactQuery [(''service'', [''git-upload-pack'', ''git-upload-pack''])]"
    by (simp add: exactQuery_def)
  have 4: "\<not> exactQuery [(''service'', [''git-receive-pack''])]" by (simp add: exactQuery_def)
  have 5: "exactQuery [(''service'', [''git-upload-pack''])]" by (simp add: exactQuery_def)
  have f1: "fmtValues [(''service'', [''git-upload-pack'']), (''extra'', [''1''])] =
     ''map[extra:[1] service:[git-upload-pack]]''"
    by (simp add: fmtValues_def)
  have f2: "fmtValues [] = ''map[]''" by (simp add: fmtValues_def)
  have f3: "fmtValues [(''service'', [''git-upload-pack'', ''git-upload-pack''])] =
     ''map[service:[git-upload-pack git-upload-pack]]''" by (simp add: fmtValues_def)
  have f4: "fmtValues [(''service'', [''git-receive-pack''])] = ''map[service:[git-receive-pack]]''"
    by (simp add: fmtValues_def)
  show ?thesis
    using infoRefs_query [of "[(''service'', [''git-upload-pack'']), (''extra'', [''1''])]" "Upstream 200 []"]
      infoRefs_query [of "[]" "Upstream 200 []"]
      infoRefs_query [of "[(''service'', [''git-upload-pack'', ''git-upload-pack''])]" "Upstream 200 []"]
      infoRefs_query [of "[(''service'', [''git-receive-pack''])]" "Upstream 200 []"]
      infoRefs_query [of "[(''service'', [''git-upload-pack''])]" "Upstream 200 []"]
      1 2 3 4 5 f1 f2 f3 f4
    by (simp only: simp_thms append.simps)
qed

subsection \<open>C9: a missing target\<close>



subsection \<open>C10: an advertisement without references\<close>



end
